theory Spec2Isabelle
  imports Complex_Main "HOL-Library.Stream"
begin

section \<open>Multidimensional bisection in a trust region\<close>

text \<open>
  A shallow embedding of \<^verbatim>\<open>Optimization/MultidimensionalBisection/MultidimensionalBisection2.py\<close>.

  Numbers. The program computes with NumPy \<^verbatim>\<open>float64\<close> arrays. Finite values are modelled as
  exact reals (rounding and overflow are not modelled). The non-finite values the program itself
  creates are modelled by the type \<open>fl\<close>: the \<^verbatim>\<open>np.inf\<close> initialisers of \<^verbatim>\<open>y\<close>, \<^verbatim>\<open>fy\<close>, \<^verbatim>\<open>fx_best\<close>,
  and the quotients \<^verbatim>\<open>x/x_prev\<close> of the outer loop test, where a division by zero gives an
  infinity or NaN and every comparison with NaN is false.

  Globals. The function reads the module-level objective \<^verbatim>\<open>f\<close> and its gradient \<^verbatim>\<open>df\<close>; the
  model takes them as the arguments \<open>f\<close> and \<open>df\<close>. The calls \<^verbatim>\<open>np.random.uniform\<close> and
  \<^verbatim>\<open>np.random.randn\<close> read NumPy's global generator; the model threads the stream of samples
  that generator delivers (\<open>rng\<close>) through the state.

  Arrays are lists. All arrays of one run have the length of \<^verbatim>\<open>x\<close>, so elementwise operations
  are \<open>map2\<close>. Slices \<^verbatim>\<open>x[:]\<close> are views of arrays that are never written afterwards, so they
  are modelled as values.
\<close>

subsection \<open>Floating-point values with infinities and NaN\<close>

datatype fl = Fin real | PInf | NInf | NaN

fun flt :: "fl \<Rightarrow> fl \<Rightarrow> bool" where
  "flt (Fin a) (Fin b) = (a < b)"
| "flt (Fin a) PInf = True"
| "flt NInf (Fin b) = True"
| "flt NInf PInf = True"
| "flt _ _ = False"

fun fle :: "fl \<Rightarrow> fl \<Rightarrow> bool" where
  "fle (Fin a) (Fin b) = (a \<le> b)"
| "fle (Fin a) PInf = True"
| "fle NInf (Fin b) = True"
| "fle NInf PInf = True"
| "fle PInf PInf = True"
| "fle NInf NInf = True"
| "fle _ _ = False"

definition fgt :: "fl \<Rightarrow> fl \<Rightarrow> bool" where
  "fgt a b = flt b a"

fun fneg :: "fl \<Rightarrow> fl" where
  "fneg (Fin a) = Fin (- a)"
| "fneg PInf = NInf"
| "fneg NInf = PInf"
| "fneg NaN = NaN"

fun fadd :: "fl \<Rightarrow> fl \<Rightarrow> fl" where
  "fadd (Fin a) (Fin b) = Fin (a + b)"
| "fadd NaN _ = NaN"
| "fadd _ NaN = NaN"
| "fadd PInf NInf = NaN"
| "fadd NInf PInf = NaN"
| "fadd PInf _ = PInf"
| "fadd _ PInf = PInf"
| "fadd NInf _ = NInf"
| "fadd _ NInf = NInf"

definition fsub :: "fl \<Rightarrow> fl \<Rightarrow> fl" where
  "fsub a b = fadd a (fneg b)"

fun fsq :: "fl \<Rightarrow> fl" where
  "fsq (Fin a) = Fin (a * a)"
| "fsq PInf = PInf"
| "fsq NInf = PInf"
| "fsq NaN = NaN"

fun fsqrt :: "fl \<Rightarrow> fl" where
  "fsqrt (Fin a) = (if a < 0 then NaN else Fin (sqrt a))"
| "fsqrt PInf = PInf"
| "fsqrt NInf = NaN"
| "fsqrt NaN = NaN"

fun fabs :: "fl \<Rightarrow> fl" where
  "fabs (Fin a) = Fin \<bar>a\<bar>"
| "fabs PInf = PInf"
| "fabs NInf = PInf"
| "fabs NaN = NaN"

text \<open>\<^verbatim>\<open>a/b\<close> for two finite floats: \<^verbatim>\<open>0/0\<close> is NaN, any other division by zero an infinity
  (of either sign; the program only uses its absolute value).\<close>

definition fdiv :: "real \<Rightarrow> real \<Rightarrow> fl" where
  "fdiv a b = (if b = 0 then (if a = 0 then NaN else if 0 < a then PInf else NInf)
               else Fin (a / b))"

text \<open>\<^verbatim>\<open>np.maximum\<close>: NaN if either argument is NaN.\<close>

fun fmax :: "fl \<Rightarrow> fl \<Rightarrow> fl" where
  "fmax NaN _ = NaN"
| "fmax _ NaN = NaN"
| "fmax a b = (if flt a b then b else a)"

subsection \<open>Exceptions\<close>

datatype error = AssertionError | IndexError | ValueError | UnboundLocalError

subsection \<open>NumPy operations\<close>

text \<open>\<^verbatim>\<open>np.max\<close> of a one-dimensional array: ValueError on the empty array, NaN if any entry
  is NaN.\<close>

definition np_max :: "fl list \<Rightarrow> error + fl" where
  "np_max xs = (case xs of [] \<Rightarrow> Inl ValueError | a # as \<Rightarrow> Inr (foldl fmax a as))"

text \<open>\<^verbatim>\<open>np.argmin\<close>: the index of the first NaN if there is one, else of the first minimum.
  \<open>argmin_from i b j xs\<close> scans \<open>xs\<close>, whose head has index \<open>j\<close>, with the best entry so far
  \<open>b\<close> at index \<open>i\<close>.\<close>

fun argmin_from :: "nat \<Rightarrow> fl \<Rightarrow> nat \<Rightarrow> fl list \<Rightarrow> nat" where
  "argmin_from i b j [] = i"
| "argmin_from i b j (a # as) =
     (if b = NaN then i
      else if a = NaN \<or> flt a b then argmin_from j a (Suc j) as
      else argmin_from i b (Suc j) as)"

definition np_argmin :: "fl list \<Rightarrow> error + nat" where
  "np_argmin xs = (case xs of [] \<Rightarrow> Inl ValueError | a # as \<Rightarrow> Inr (argmin_from 0 a 1 as))"

definition ones :: "nat \<Rightarrow> real list" where
  "ones k = replicate k 1"

definition vadd :: "real list \<Rightarrow> real list \<Rightarrow> real list" where
  "vadd a b = map2 (+) a b"

definition vsub :: "real list \<Rightarrow> real list \<Rightarrow> real list" where
  "vsub a b = map2 (-) a b"

definition smul :: "real \<Rightarrow> real list \<Rightarrow> real list" where
  "smul c a = map ((*) c) a"

subsection \<open>The distance \<^verbatim>\<open>d\<close>\<close>

text \<open>\<^verbatim>\<open>d(x,y)\<close> with the default \<^verbatim>\<open>norm=2\<close> (the only one the program uses):
  \<^verbatim>\<open>np.sqrt(np.sum((x-y)**2))\<close>. \<open>d\<close> is the function on arrays that may hold infinities;
  \<open>d_fin\<close> is the same function on finite arrays (see \<open>d_Fin\<close> below).\<close>

definition fsum :: "fl list \<Rightarrow> fl" where
  "fsum xs = foldr fadd xs (Fin 0)"

definition d :: "fl list \<Rightarrow> fl list \<Rightarrow> fl" where
  "d a b = fsqrt (fsum (map fsq (map2 fsub a b)))"

definition d_fin :: "real list \<Rightarrow> real list \<Rightarrow> real" where
  "d_fin a b = sqrt (sum_list (map (\<lambda>c. c * c) (vsub a b)))"

subsection \<open>The local variables of \<^verbatim>\<open>MultiDimensionalBisection\<close>\<close>

text \<open>
  One record holds the function's local variables. Single-letter names are lengthened:
  \<^verbatim>\<open>x\<close> is \<open>x_cur\<close>, \<^verbatim>\<open>y\<close> is \<open>y_old\<close>, \<^verbatim>\<open>fx\<close> is \<open>fx_cur\<close>, \<^verbatim>\<open>fy\<close> is \<open>fy_old\<close>, \<^verbatim>\<open>n\<close> is \<open>n_steps\<close>,
  \<^verbatim>\<open>m\<close> is \<open>m_cycles\<close>. \<^verbatim>\<open>x_best\<close> and \<^verbatim>\<open>fx\<close> can be read before they are assigned, so they are
  options (\<open>None\<close>: unbound, reading raises UnboundLocalError). \<open>rng\<close> is the stream of samples
  still to be delivered by NumPy's global generator. \<open>trace\<close> records, in order, the box checks,
  the evaluations of \<^verbatim>\<open>f\<close> and \<^verbatim>\<open>df\<close> and the box updates the run has performed.
\<close>

datatype event = Check | EvalF "real list" | EvalDF "real list" | Narrowed

record locals =
  x_cur :: "real list"
  trust_range :: real
  n_steps :: nat
  m_cycles :: nat
  x_prev :: "real list"
  x_high :: "real list"
  x_low :: "real list"
  y_old :: "fl list"
  fy_old :: fl
  fx_best :: fl
  x_best :: "real list option"
  fx_cur :: "fl option"
  rng :: "real stream"
  trace :: "event list"

subsection \<open>The inner loop (lines 111--139)\<close>

text \<open>The loop test \<^verbatim>\<open>d(x,y) > epsilon\<close>.\<close>

definition inner_guard :: "real \<Rightarrow> locals \<Rightarrow> bool" where
  "inner_guard eps s = fgt (d (map Fin (x_cur s)) (y_old s)) (Fin eps)"

text \<open>\<^verbatim>\<open>np.all(x_high-x_low>0)\<close>.\<close>

definition box_ok :: "real list \<Rightarrow> real list \<Rightarrow> bool" where
  "box_ok hi lo = list_all (\<lambda>w. w > 0) (vsub hi lo)"

text \<open>Lines 121--125, one pass of the \<^verbatim>\<open>for\<close> loop, and the loop. Reading \<^verbatim>\<open>dfx[i]\<close> or writing
  \<^verbatim>\<open>x_high[i]\<close> beyond the end raises IndexError.\<close>

definition narrow_grad_at :: "real list \<Rightarrow> real list \<Rightarrow> real list \<times> real list \<Rightarrow> nat
    \<Rightarrow> real list \<times> real list" where
  "narrow_grad_at x dfx b i =
     (if dfx ! i > 0 then ((fst b)[i := x ! i], snd b) else (fst b, (snd b)[i := x ! i]))"

definition narrow_grad :: "real list \<Rightarrow> real list \<Rightarrow> real list \<Rightarrow> real list
    \<Rightarrow> error + real list \<times> real list" where
  "narrow_grad x dfx hi lo =
     (if length dfx < length x \<or> length hi < length x \<or> length lo < length x
      then Inl IndexError
      else Inr (foldl (narrow_grad_at x dfx) (hi, lo) [0..<length x]))"

text \<open>Lines 127--132.\<close>

definition narrow_pos_at :: "real list \<Rightarrow> fl list \<Rightarrow> real list \<times> real list \<Rightarrow> nat
    \<Rightarrow> real list \<times> real list" where
  "narrow_pos_at x y b i =
     (if fgt (Fin (x ! i)) (y ! i) then ((fst b)[i := x ! i], snd b)
      else (fst b, (snd b)[i := x ! i]))"

definition narrow_pos :: "real list \<Rightarrow> fl list \<Rightarrow> real list \<Rightarrow> real list
    \<Rightarrow> error + real list \<times> real list" where
  "narrow_pos x y hi lo =
     (if length y < length x \<or> length hi < length x \<or> length lo < length x
      then Inl IndexError
      else Inr (foldl (narrow_pos_at x y) (hi, lo) [0..<length x]))"

text \<open>Lines 120--132: the branch on \<^verbatim>\<open>fx <= fy\<close>.\<close>

definition narrow :: "real \<Rightarrow> fl \<Rightarrow> real list \<Rightarrow> real list \<Rightarrow> fl list \<Rightarrow> real list
    \<Rightarrow> real list \<Rightarrow> error + real list \<times> real list" where
  "narrow fx fy x dfx y hi lo =
     (if fle (Fin fx) fy then narrow_grad x dfx hi lo else narrow_pos x y hi lo)"

text \<open>Lines 113--139: one pass of the inner loop body.\<close>

definition inner_step :: "(real list \<Rightarrow> real) \<Rightarrow> (real list \<Rightarrow> real list) \<Rightarrow> locals
    \<Rightarrow> error + locals" where
  "inner_step f df s =
     (if \<not> box_ok (x_high s) (x_low s) then Inl AssertionError
      else
        let x = x_cur s; fx = f x; dfx = df x in
        case narrow fx (fy_old s) x dfx (y_old s) (x_high s) (x_low s) of
          Inl e \<Rightarrow> Inl e
        | Inr (hi, lo) \<Rightarrow>
            Inr (s\<lparr> n_steps := n_steps s + 1,
                   fx_cur := Some (Fin fx),
                   x_high := hi,
                   x_low := lo,
                   x_best := (if flt (Fin fx) (fx_best s) then Some x else x_best s),
                   fx_best := (if flt (Fin fx) (fx_best s) then Fin fx else fx_best s),
                   y_old := map Fin x,
                   fy_old := Fin fx,
                   x_cur := map (\<lambda>c. c / 2) (vadd hi lo),
                   trace := trace s @ [Check, EvalF x, EvalDF x, Narrowed] \<rparr>))"

partial_function (option) inner_loop :: "(real list \<Rightarrow> real) \<Rightarrow> (real list \<Rightarrow> real list)
    \<Rightarrow> real \<Rightarrow> locals \<Rightarrow> (error + locals) option" where
  "inner_loop f df eps s =
     (if inner_guard eps s
      then (case inner_step f df s of
              Inl e \<Rightarrow> Some (Inl e)
            | Inr s' \<Rightarrow> inner_loop f df eps s')
      else Some (Inr s))"

subsection \<open>One cycle of the outer loop (lines 104--147)\<close>

text \<open>The loop test \<^verbatim>\<open>np.max(np.abs((x/x_prev)-1)) > epsilon\<close>.\<close>

definition outer_guard :: "real \<Rightarrow> real list \<Rightarrow> real list \<Rightarrow> error + bool" where
  "outer_guard eps x xp =
     (case np_max (map (\<lambda>q. fabs (fsub q (Fin 1))) (map2 fdiv x xp)) of
        Inl e \<Rightarrow> Inl e
      | Inr v \<Rightarrow> Inr (fgt v (Fin eps)))"

text \<open>Lines 104--110.\<close>

definition start_cycle :: "locals \<Rightarrow> locals" where
  "start_cycle s =
     s\<lparr> m_cycles := m_cycles s + 1,
        x_high := vadd (x_cur s) (smul (trust_range s) (ones (length (x_cur s)))),
        x_low := vsub (x_cur s) (smul (trust_range s) (ones (length (x_cur s)))),
        x_prev := x_cur s,
        y_old := replicate (length (x_cur s)) PInf,
        fy_old := PInf,
        fx_best := PInf \<rparr>"

text \<open>\<^verbatim>\<open>np.random.randn(k)\<close> and \<^verbatim>\<open>np.random.uniform(-2,2,k)\<close>: the next \<open>k\<close> samples of the
  global generator. The distribution of the samples is not modelled.\<close>

definition draw :: "nat \<Rightarrow> real stream \<Rightarrow> real list \<times> real stream" where
  "draw k g = (stake k g, sdrop k g)"

text \<open>Lines 141--147. Building the list \<^verbatim>\<open>[x_low, x_high, x_best]\<close> reads \<^verbatim>\<open>x_best\<close>, building
  \<^verbatim>\<open>[fx, fy, fx_best, f_low, f_high]\<close> reads \<^verbatim>\<open>fx\<close>.\<close>

definition finish_cycle :: "(real list \<Rightarrow> real) \<Rightarrow> real \<Rightarrow> locals \<Rightarrow> error + locals" where
  "finish_cycle f eps s =
     (let f_low = f (x_low s); f_high = f (x_high s) in
      case np_argmin [Fin f_low, Fin f_high, fx_best s] of
        Inl e \<Rightarrow> Inl e
      | Inr a \<Rightarrow>
         (case x_best s of
            None \<Rightarrow> Inl UnboundLocalError
          | Some xb \<Rightarrow>
             (case fx_cur s of
                None \<Rightarrow> Inl UnboundLocalError
              | Some fx \<Rightarrow>
                 (let x = [x_low s, x_high s, xb] ! a;
                      fx' = [fx, fy_old s, fx_best s, Fin f_low, Fin f_high] ! a;
                      (z, g) = draw (length x) (rng s)
                  in Inr (s\<lparr> x_cur := x,
                            fx_cur := Some fx',
                            trust_range := d_fin x (vadd (x_prev s) (smul (1 / 10 * eps) z)),
                            rng := g,
                            trace := trace s @ [EvalF (x_low s), EvalF (x_high s)] \<rparr>)))))"

definition outer_body :: "(real list \<Rightarrow> real) \<Rightarrow> (real list \<Rightarrow> real list) \<Rightarrow> real \<Rightarrow> locals
    \<Rightarrow> (error + locals) option" where
  "outer_body f df eps s =
     (case inner_loop f df eps (start_cycle s) of
        None \<Rightarrow> None
      | Some (Inl e) \<Rightarrow> Some (Inl e)
      | Some (Inr s') \<Rightarrow> Some (finish_cycle f eps s'))"

subsection \<open>The outer loop and the function (lines 97--153)\<close>

partial_function (option) outer_loop :: "(real list \<Rightarrow> real) \<Rightarrow> (real list \<Rightarrow> real list)
    \<Rightarrow> real \<Rightarrow> locals \<Rightarrow> (error + locals) option" where
  "outer_loop f df eps s =
     (case outer_guard eps (x_cur s) (x_prev s) of
        Inl e \<Rightarrow> Some (Inl e)
      | Inr b \<Rightarrow>
         (if b
          then (case outer_body f df eps s of
                  None \<Rightarrow> None
                | Some (Inl e) \<Rightarrow> Some (Inl e)
                | Some (Inr s') \<Rightarrow> outer_loop f df eps s')
          else Some (Inr s)))"

text \<open>Lines 98--100. The locals that are assigned only inside the loop start with
  placeholders; each is assigned at lines 105--110 before it is read.\<close>

definition init_locals :: "real list \<Rightarrow> real \<Rightarrow> real stream \<Rightarrow> locals" where
  "init_locals x tr g =
     \<lparr> x_cur = x, trust_range = tr, n_steps = 0, m_cycles = 0, x_prev = smul 10 x,
       x_high = [], x_low = [], y_old = [], fy_old = PInf, fx_best = PInf,
       x_best = None, fx_cur = None, rng = g, trace = [] \<rparr>"

text \<open>The function. \<open>None\<close>: the call does not return. \<open>Some (Inl e)\<close>: it raises \<open>e\<close>.
  \<open>Some (Inr s)\<close>: it returns \<open>x_cur s\<close>; the other fields of \<open>s\<close> are the final values of the
  counters and what the call has left of the generator's stream.\<close>

definition MultiDimensionalBisection :: "(real list \<Rightarrow> real) \<Rightarrow> (real list \<Rightarrow> real list)
    \<Rightarrow> real list \<Rightarrow> real \<Rightarrow> real \<Rightarrow> real stream \<Rightarrow> (error + locals) option" where
  "MultiDimensionalBisection f df x tr eps g = outer_loop f df eps (init_locals x tr g)"

subsection \<open>The restart loop at module level (lines 155--164)\<close>

text \<open>The module-level variables \<^verbatim>\<open>x_best\<close>, \<^verbatim>\<open>i\<close> and the generator. \<open>nv\<close> is \<^verbatim>\<open>len(v1)\<close>.\<close>

record globals =
  g_x_best :: "real list"
  g_i :: nat
  g_rng :: "real stream"

text \<open>Lines 159--163: one restart. There is no \<^verbatim>\<open>try\<close> around the call, so an exception
  raised by the call ends the program.\<close>

definition restart_body :: "(real list \<Rightarrow> real) \<Rightarrow> (real list \<Rightarrow> real list) \<Rightarrow> nat \<Rightarrow> globals
    \<Rightarrow> (error + globals) option" where
  "restart_body f df nv s =
     (let (x0, g) = draw nv (g_rng s) in
      case MultiDimensionalBisection f df x0 2 (1 / 10 ^ 10) g of
        None \<Rightarrow> None
      | Some (Inl e) \<Rightarrow> Some (Inl e)
      | Some (Inr l) \<Rightarrow>
          Some (Inr (s\<lparr> g_i := g_i s + 1,
                       g_x_best := (if f (x_cur l) < f (g_x_best s) then x_cur l
                                    else g_x_best s),
                       g_rng := rng l \<rparr>)))"

partial_function (option) restart_loop :: "(real list \<Rightarrow> real) \<Rightarrow> (real list \<Rightarrow> real list)
    \<Rightarrow> nat \<Rightarrow> globals \<Rightarrow> (error + globals) option" where
  "restart_loop f df nv s =
     (if f (g_x_best s) > 1 / 10 ^ 3
      then (case restart_body f df nv s of
              None \<Rightarrow> None
            | Some (Inl e) \<Rightarrow> Some (Inl e)
            | Some (Inr s') \<Rightarrow> restart_loop f df nv s')
      else Some (Inr s))"

text \<open>Lines 94 and 155--164: the module's run. Line 94 draws a first point that is never
  used.\<close>

definition main :: "(real list \<Rightarrow> real) \<Rightarrow> (real list \<Rightarrow> real list) \<Rightarrow> nat \<Rightarrow> real stream
    \<Rightarrow> (error + globals) option" where
  "main f df nv g0 =
     (let (x, g1) = draw nv g0;
          (xb, g2) = draw nv g1
      in restart_loop f df nv \<lparr> g_x_best = xb, g_i = 0, g_rng = g2 \<rparr>)"

subsection \<open>Concrete inputs used to exercise the theorems\<close>

text \<open>The objective \<open>\<Sum> x\<^sub>i\<^sup>2\<close> and its gradient.\<close>

definition quad :: "real list \<Rightarrow> real" where
  "quad x = sum_list (map (\<lambda>c. c * c) x)"

definition dquad :: "real list \<Rightarrow> real list" where
  "dquad x = map ((*) 2) x"

definition w_start :: locals where
  "w_start = start_cycle (init_locals [1, - 1] 2 (sconst 0))"

definition w_next :: locals where
  "w_next = w_start\<lparr> n_steps := 1, fx_cur := Some (Fin 2), x_high := [1, 1], x_low := [- 1, - 1],
            x_best := Some [1, - 1], fx_best := Fin 2, y_old := [Fin 1, Fin (- 1)],
            fy_old := Fin 2, x_cur := [0, 0],
            trace := [Check, EvalF [1, - 1], EvalDF [1, - 1], Narrowed] \<rparr>"

subsection \<open>The states a run passes through\<close>

text \<open>\<open>inner_reach f df eps s0 s\<close>: starting the inner loop with the locals \<open>s0\<close>, the loop
  test is evaluated with the locals \<open>s\<close> (after zero or more passes of the body, each entered
  because the test held and left without an exception).\<close>

inductive inner_reach :: "(real list \<Rightarrow> real) \<Rightarrow> (real list \<Rightarrow> real list) \<Rightarrow> real \<Rightarrow> locals
    \<Rightarrow> locals \<Rightarrow> bool" for f df eps s0 where
  inner_start: "inner_reach f df eps s0 s0"
| inner_next: "inner_reach f df eps s0 s \<Longrightarrow> inner_guard eps s \<Longrightarrow> inner_step f df s = Inr s'
    \<Longrightarrow> inner_reach f df eps s0 s'"

text \<open>\<open>cycle_reach f df eps s0 s\<close>: the same for the outer loop and its cycles.\<close>

inductive cycle_reach :: "(real list \<Rightarrow> real) \<Rightarrow> (real list \<Rightarrow> real list) \<Rightarrow> real \<Rightarrow> locals
    \<Rightarrow> locals \<Rightarrow> bool" for f df eps s0 where
  cycle_start: "cycle_reach f df eps s0 s0"
| cycle_next: "cycle_reach f df eps s0 s \<Longrightarrow> outer_guard eps (x_cur s) (x_prev s) = Inr True
    \<Longrightarrow> outer_body f df eps s = Some (Inr s') \<Longrightarrow> cycle_reach f df eps s0 s'"

text \<open>The iterate lies in the box: \<open>low[i] \<le> x[i] \<le> high[i]\<close> in every dimension.\<close>

definition in_box :: "locals \<Rightarrow> bool" where
  "in_box s = (length (x_low s) = length (x_cur s) \<and> length (x_high s) = length (x_cur s) \<and>
     (\<forall>i < length (x_cur s). x_low s ! i \<le> x_cur s ! i \<and> x_cur s ! i \<le> x_high s ! i))"

definition w_globals :: globals where
  "w_globals = \<lparr> g_x_best = [1, 1], g_i = 0, g_rng = sconst 0 \<rparr>"

text \<open>A run in one dimension: the start point \<open>[1]\<close>, trust range 2, \<open>epsilon = 1/2\<close>, a
  generator that delivers zeros; the locals when the inner loop of the first cycle exits, and
  at the end of that cycle.\<close>

definition c_init :: locals where
  "c_init = init_locals [1] 2 (sconst 0)"

definition c_inner :: locals where
  "c_inner = \<lparr> x_cur = [1 / 2], trust_range = 2, n_steps = 2, m_cycles = 1, x_prev = [1],
      x_high = [1], x_low = [0], y_old = [Fin 0], fy_old = Fin 0, fx_best = Fin 0,
      x_best = Some [0], fx_cur = Some (Fin 0), rng = sconst 0,
      trace = [Check, EvalF [1], EvalDF [1], Narrowed, Check, EvalF [0], EvalDF [0], Narrowed] \<rparr>"

definition c_cycle :: locals where
  "c_cycle = \<lparr> x_cur = [0], trust_range = 1, n_steps = 2, m_cycles = 1, x_prev = [1],
      x_high = [1], x_low = [0], y_old = [Fin 0], fy_old = Fin 0, fx_best = Fin 0,
      x_best = Some [0], fx_cur = Some (Fin 0), rng = sconst 0,
      trace = [Check, EvalF [1], EvalDF [1], Narrowed, Check, EvalF [0], EvalDF [0], Narrowed,
               EvalF [0], EvalF [1]] \<rparr>"

text \<open>The whole call of that run returns with these locals.\<close>

definition c_final :: locals where
  "c_final = \<lparr> x_cur = [0], trust_range = 0, n_steps = 3, m_cycles = 2, x_prev = [0],
      x_high = [1], x_low = [0], y_old = [Fin 0], fy_old = Fin 0, fx_best = Fin 0,
      x_best = Some [0], fx_cur = Some (Fin 0), rng = sconst 0,
      trace = [Check, EvalF [1], EvalDF [1], Narrowed, Check, EvalF [0], EvalDF [0], Narrowed,
               EvalF [0], EvalF [1], Check, EvalF [0], EvalDF [0], Narrowed,
               EvalF [0], EvalF [1]] \<rparr>"

subsection \<open>Reading a trace\<close>

text \<open>\<open>checked_before_eval c es\<close>: in the trace \<open>es\<close> every evaluation of \<^verbatim>\<open>f\<close> or \<^verbatim>\<open>df\<close> happens
  while the box invariant is known to hold, that is, a check has been made since the box was
  last changed. \<open>c\<close> says whether that is so when the trace begins.\<close>

fun checked_before_eval :: "bool \<Rightarrow> event list \<Rightarrow> bool" where
  "checked_before_eval c [] = True"
| "checked_before_eval c (Check # es) = checked_before_eval True es"
| "checked_before_eval c (Narrowed # es) = checked_before_eval False es"
| "checked_before_eval c (EvalF p # es) = (c \<and> checked_before_eval c es)"
| "checked_before_eval c (EvalDF p # es) = (c \<and> checked_before_eval c es)"

text \<open>\<open>shaped k t\<close>: the arrays of the locals \<open>t\<close> have length \<open>k\<close>, and so has \<^verbatim>\<open>x_best\<close> if it
  was assigned in this cycle.\<close>

definition shaped :: "nat \<Rightarrow> locals \<Rightarrow> bool" where
  "shaped k t = (length (x_high t) = k \<and> length (x_low t) = k \<and> length (x_cur t) = k \<and>
     (fx_best t = PInf \<or> (\<exists>xb. x_best t = Some xb \<and> length xb = k)))"



text \<open>What a call returns and how many outer cycles it took.\<close>

definition outcome :: "(error + locals) option \<Rightarrow> (error + real list \<times> nat) option" where
  "outcome r = map_option (map_sum id (\<lambda>l. (x_cur l, m_cycles l))) r"

text \<open>A quadratic objective in one dimension with its minimum at \<open>1 + 2\<^sup>-\<^sup>3\<^sup>3\<close>, and its
  gradient.\<close>

definition sqf :: "real list \<Rightarrow> real" where
  "sqf x = (x ! 0 - (1 + 1 / 2 ^ 33)) * (x ! 0 - (1 + 1 / 2 ^ 33))"

definition dsqf :: "real list \<Rightarrow> real list" where
  "dsqf x = map (\<lambda>c. 2 * (c - (1 + 1 / 2 ^ 33))) x"

text \<open>Module-level variables before a restart whose generator delivers the start point \<open>[1]\<close>
  and then the normal sample \<open>10\<^sup>1\<^sup>1 / 2\<^sup>3\<^sup>3\<close> (about 11.64) for the jitter of the first cycle.\<close>

definition f_globals :: globals where
  "f_globals = \<lparr> g_x_best = [- 1], g_i = 0, g_rng = 1 ## (10 ^ 11 / 2 ^ 33) ## sconst 0 \<rparr>"

text \<open>A cycle in one dimension from the point \<open>[1]\<close> with trust range 6 and the objective
  \<open>\<Sum> x\<^sub>i\<^sup>2\<close>: the locals after the first step, where the iterate \<open>[-2]\<close> is worse than the
  previous point \<open>[1]\<close>, and after the second step.\<close>

definition p_mid :: locals where
  "p_mid = \<lparr> x_cur = [- 2], trust_range = 6, n_steps = 1, m_cycles = 1, x_prev = [1],
      x_high = [1], x_low = [- 5], y_old = [Fin 1], fy_old = Fin 1, fx_best = Fin 1,
      x_best = Some [1], fx_cur = Some (Fin 1), rng = sconst 0,
      trace = [Check, EvalF [1], EvalDF [1], Narrowed] \<rparr>"

definition p_next :: locals where
  "p_next = \<lparr> x_cur = [- (1 / 2)], trust_range = 6, n_steps = 2, m_cycles = 1, x_prev = [1],
      x_high = [1], x_low = [- 2], y_old = [Fin (- 2)], fy_old = Fin 4, fx_best = Fin 1,
      x_best = Some [1], fx_cur = Some (Fin 4), rng = sconst 0,
      trace = [Check, EvalF [1], EvalDF [1], Narrowed, Check, EvalF [- 2], EvalDF [- 2],
               Narrowed] \<rparr>"

text \<open>A quadratic objective in one dimension with its minimum at \<open>1 + 2\<^sup>-\<^sup>3\<^sup>4 + 2\<^sup>-\<^sup>4\<^sup>0\<close>, and its
  gradient.\<close>

definition sqm :: "real list \<Rightarrow> real" where
  "sqm x = (x ! 0 - (1 + 1 / 2 ^ 34 + 1 / 2 ^ 40)) * (x ! 0 - (1 + 1 / 2 ^ 34 + 1 / 2 ^ 40))"

definition dsqm :: "real list \<Rightarrow> real list" where
  "dsqm x = map (\<lambda>c. 2 * (c - (1 + 1 / 2 ^ 34 + 1 / 2 ^ 40))) x"

section \<open>Properties\<close>

subsection \<open>The outer loop test at a zero coordinate\<close>

lemma foldl_fmax_NaN: "foldl fmax NaN xs = NaN"
  by (induction xs) simp_all

lemma fmax_NaN_right: "fmax a NaN = NaN"
  by (cases a) simp_all

lemma foldl_fmax_mem_NaN: "NaN \<in> set xs \<Longrightarrow> foldl fmax a xs = NaN"
  by (induction xs arbitrary: a) (auto simp: foldl_fmax_NaN fmax_NaN_right)

lemma np_max_NaN: "NaN \<in> set xs \<Longrightarrow> np_max xs = Inr NaN"
  by (cases xs) (auto simp: np_max_def foldl_fmax_NaN foldl_fmax_mem_NaN)

lemma fgt_NaN: "fgt NaN b = False"
  by (cases b) (simp_all add: fgt_def)

lemma outer_guard_zero:
  assumes "0 \<in> set x"
  shows "outer_guard eps x (smul 10 x) = Inr False"
proof -
  have "(0, 0) \<in> set (zip x (smul 10 x))"
    using assms by (induction x) (auto simp: smul_def)
  then have "fabs (fsub (fdiv 0 0) (Fin 1)) \<in> set (map (\<lambda>q. fabs (fsub q (Fin 1))) (map2 fdiv x (smul 10 x)))"
    by force
  then have "NaN \<in> set (map (\<lambda>q. fabs (fsub q (Fin 1))) (map2 fdiv x (smul 10 x)))"
    by (simp add: fdiv_def fsub_def)
  then show ?thesis
    by (simp add: outer_guard_def np_max_NaN fgt_NaN)
qed

text \<open>
  Claim C10. For every starting point \<open>x\<close> with a coordinate equal to zero, the call returns \<open>x\<close>
  unchanged without a bisection step: the outer loop test divides zero by \<open>10 * 0\<close>, the
  quotient is NaN, \<^verbatim>\<open>np.max\<close> propagates it, and \<open>NaN > epsilon\<close> is false. The final locals
  are the initial ones: no cycle, no step, no evaluation, no sample drawn.
\<close>

theorem zero_coordinate_returns_unchanged:
  assumes "0 \<in> set x"
  shows "MultiDimensionalBisection f df x tr eps g = Some (Inr (init_locals x tr g))"
  using outer_guard_zero [OF assms, of eps]
  by (simp add: MultiDimensionalBisection_def outer_loop.simps init_locals_def)

theorem zero_coordinate_returns_unchanged_witness:
  "(0::real) \<in> set [0, 1] \<and>
   MultiDimensionalBisection (\<lambda>x. sum_list (map (\<lambda>c. c * c) x)) (map ((*) 2)) [0, 1] 2
     (1 / 10 ^ 10) (sconst 0) = Some (Inr (init_locals [0, 1] 2 (sconst 0)))"
  using zero_coordinate_returns_unchanged
    [of "[0, 1]" "\<lambda>x. sum_list (map (\<lambda>c. c * c) x)" "map ((*) 2)" 2 "1 / 10 ^ 10" "sconst 0"]
  by simp

subsection \<open>The narrowing loops\<close>

lemma upd_map_upt:
  "(map g [0..<L])[n := w] = map (g(n := w)) [0..<L]"
  by (rule nth_equalityI) (auto simp: nth_list_update)

lemma map_upt_id: "map (\<lambda>i. hi ! i) [0..<length hi] = hi"
  by (rule nth_equalityI) auto

lemma foldl_narrow_generic:
  "foldl (\<lambda>b i. if c i then ((fst b)[i := v i], snd b) else (fst b, (snd b)[i := v i]))
     (hi, lo) [0..<n]
   = (map (\<lambda>i. if i < n \<and> c i then v i else hi ! i) [0..<length hi],
      map (\<lambda>i. if i < n \<and> \<not> c i then v i else lo ! i) [0..<length lo])"
proof (induction n)
  case 0
  show ?case by (simp add: map_upt_id)
next
  case (Suc n)
  have a: "(\<lambda>i. if i < n \<and> c i then v i else hi ! i)(n := v n) = (\<lambda>i. if i < Suc n \<and> c i then v i else hi ! i)" if "c n"
    using that by (auto simp: fun_eq_iff less_Suc_eq)
  have b: "(\<lambda>i. if i < n \<and> \<not> c i then v i else lo ! i)(n := v n) = (\<lambda>i. if i < Suc n \<and> \<not> c i then v i else lo ! i)" if "\<not> c n"
    using that by (auto simp: fun_eq_iff less_Suc_eq)
  have a': "(\<lambda>i. if i < n \<and> c i then v i else hi ! i) = (\<lambda>i. if i < Suc n \<and> c i then v i else hi ! i)" if "\<not> c n"
    using that by (auto simp: fun_eq_iff less_Suc_eq)
  have b': "(\<lambda>i. if i < n \<and> \<not> c i then v i else lo ! i) = (\<lambda>i. if i < Suc n \<and> \<not> c i then v i else lo ! i)" if "c n"
    using that by (auto simp: fun_eq_iff less_Suc_eq)
  show ?case
  proof (cases "c n")
    case True
    then show ?thesis using Suc a b' by (simp add: upd_map_upt)
  next
    case False
    then show ?thesis using Suc a' b by (simp add: upd_map_upt)
  qed
qed

subsection \<open>The narrowing rule\<close>

lemma fgt_not_fle: "fgt a b \<Longrightarrow> \<not> fle a b"
  by (cases a; cases b) (simp_all add: fgt_def)

lemma narrow_grad_Inr:
  assumes "narrow_grad x dfx hi lo = Inr (hi', lo')"
  shows "hi' = map (\<lambda>i. if i < length x \<and> dfx ! i > 0 then x ! i else hi ! i) [0..<length hi]"
    and "lo' = map (\<lambda>i. if i < length x \<and> \<not> dfx ! i > 0 then x ! i else lo ! i) [0..<length lo]"
    and "length x \<le> length hi" and "length x \<le> length lo"
proof -
  have e: "narrow_grad_at x dfx = (\<lambda>b i. if dfx ! i > 0 then ((fst b)[i := x ! i], snd b)
      else (fst b, (snd b)[i := x ! i]))"
    by (simp add: fun_eq_iff narrow_grad_at_def)
  from assms have c: "\<not> (length dfx < length x \<or> length hi < length x \<or> length lo < length x)"
    and r: "foldl (narrow_grad_at x dfx) (hi, lo) [0..<length x] = (hi', lo')"
    by (auto simp: narrow_grad_def split: if_splits)
  from r show "hi' = map (\<lambda>i. if i < length x \<and> dfx ! i > 0 then x ! i else hi ! i) [0..<length hi]"
    and "lo' = map (\<lambda>i. if i < length x \<and> \<not> dfx ! i > 0 then x ! i else lo ! i) [0..<length lo]"
    unfolding e foldl_narrow_generic by simp_all
  from c show "length x \<le> length hi" "length x \<le> length lo" by simp_all
qed

lemma narrow_pos_Inr:
  assumes "narrow_pos x y hi lo = Inr (hi', lo')"
  shows "hi' = map (\<lambda>i. if i < length x \<and> fgt (Fin (x ! i)) (y ! i) then x ! i else hi ! i) [0..<length hi]"
    and "lo' = map (\<lambda>i. if i < length x \<and> \<not> fgt (Fin (x ! i)) (y ! i) then x ! i else lo ! i) [0..<length lo]"
    and "length x \<le> length hi" and "length x \<le> length lo"
proof -
  have e: "narrow_pos_at x y = (\<lambda>b i. if fgt (Fin (x ! i)) (y ! i) then ((fst b)[i := x ! i], snd b)
      else (fst b, (snd b)[i := x ! i]))"
    by (simp add: fun_eq_iff narrow_pos_at_def)
  from assms have c: "\<not> (length y < length x \<or> length hi < length x \<or> length lo < length x)"
    and r: "foldl (narrow_pos_at x y) (hi, lo) [0..<length x] = (hi', lo')"
    by (auto simp: narrow_pos_def split: if_splits)
  from r show "hi' = map (\<lambda>i. if i < length x \<and> fgt (Fin (x ! i)) (y ! i) then x ! i else hi ! i) [0..<length hi]"
    and "lo' = map (\<lambda>i. if i < length x \<and> \<not> fgt (Fin (x ! i)) (y ! i) then x ! i else lo ! i) [0..<length lo]"
    unfolding e foldl_narrow_generic by simp_all
  from c show "length x \<le> length hi" "length x \<le> length lo" by simp_all
qed

lemma inner_step_Inr:
  assumes "inner_step f df s = Inr s'"
  obtains hi lo where
    "box_ok (x_high s) (x_low s)"
    "narrow (f (x_cur s)) (fy_old s) (x_cur s) (df (x_cur s)) (y_old s) (x_high s) (x_low s) = Inr (hi, lo)"
    "s' = s\<lparr> n_steps := n_steps s + 1,
             fx_cur := Some (Fin (f (x_cur s))),
             x_high := hi,
             x_low := lo,
             x_best := (if flt (Fin (f (x_cur s))) (fx_best s) then Some (x_cur s) else x_best s),
             fx_best := (if flt (Fin (f (x_cur s))) (fx_best s) then Fin (f (x_cur s)) else fx_best s),
             y_old := map Fin (x_cur s),
             fy_old := Fin (f (x_cur s)),
             x_cur := map (\<lambda>c. c / 2) (vadd hi lo),
             trace := trace s @ [Check, EvalF (x_cur s), EvalDF (x_cur s), Narrowed] \<rparr>"
  using assms unfolding inner_step_def Let_def
  by (auto split: if_splits sum.splits)

text \<open>The narrowing rule of lines 120--132, for a step that completes.\<close>

lemma narrowing_rule:
  assumes "inner_step f df s = Inr s'" and "i < length (x_cur s)"
  shows "(fle (Fin (f (x_cur s))) (fy_old s) \<longrightarrow>
           (if df (x_cur s) ! i > 0
            then x_high s' ! i = x_cur s ! i \<and> x_low s' ! i = x_low s ! i
            else x_low s' ! i = x_cur s ! i \<and> x_high s' ! i = x_high s ! i)) \<and>
         (fgt (Fin (f (x_cur s))) (fy_old s) \<longrightarrow>
           (if fgt (Fin (x_cur s ! i)) (y_old s ! i)
            then x_high s' ! i = x_cur s ! i \<and> x_low s' ! i = x_low s ! i
            else x_low s' ! i = x_cur s ! i \<and> x_high s' ! i = x_high s ! i))"
proof -
  from assms(1) obtain hi lo where
    n: "narrow (f (x_cur s)) (fy_old s) (x_cur s) (df (x_cur s)) (y_old s) (x_high s) (x_low s) = Inr (hi, lo)"
    and s': "x_high s' = hi" "x_low s' = lo"
    by (rule inner_step_Inr) simp
  show ?thesis
  proof (cases "fle (Fin (f (x_cur s))) (fy_old s)")
    case True
    then have g: "narrow_grad (x_cur s) (df (x_cur s)) (x_high s) (x_low s) = Inr (hi, lo)"
      using n by (simp add: narrow_def)
    have "\<not> fgt (Fin (f (x_cur s))) (fy_old s)"
      using True fgt_not_fle by blast
    then show ?thesis
      using narrow_grad_Inr [OF g] assms(2) s' by auto
  next
    case False
    then have g: "narrow_pos (x_cur s) (y_old s) (x_high s) (x_low s) = Inr (hi, lo)"
      using n by (simp add: narrow_def)
    show ?thesis
      using narrow_pos_Inr [OF g] assms(2) s' False by auto
  qed
qed


lemma inner_step_w_start: "inner_step quad dquad w_start = Inr w_next"
  by (simp add: inner_step_def w_start_def w_next_def start_cycle_def init_locals_def box_ok_def
      vadd_def vsub_def smul_def ones_def quad_def dquad_def narrow_def narrow_grad_def
      narrow_grad_at_def numeral_2_eq_2 Let_def)

lemma w_start_fields:
  "x_cur w_start = [1, - 1]" "fy_old w_start = PInf" "x_low w_start = [- 1, - 3]"
  "x_high w_start = [3, 1]" "y_old w_start = [PInf, PInf]" "fx_best w_start = PInf"
  by (simp_all add: w_start_def start_cycle_def init_locals_def vadd_def vsub_def smul_def
      ones_def numeral_2_eq_2)

lemma narrowing_rule_gradient_case:
  "inner_step quad dquad w_start = Inr w_next \<and> (0::nat) < length (x_cur w_start) \<and>
   fle (Fin (quad (x_cur w_start))) (fy_old w_start) \<and> dquad (x_cur w_start) ! 0 > 0 \<and>
   x_high w_next ! 0 = x_cur w_start ! 0 \<and> x_low w_next ! 0 = x_low w_start ! 0"
proof -
  have l: "(0::nat) < length (x_cur w_start)"
    by (simp add: w_start_fields)
  have g: "fle (Fin (quad (x_cur w_start))) (fy_old w_start)"
    by (simp add: w_start_fields)
  have p: "dquad (x_cur w_start) ! 0 > 0"
    by (simp add: w_start_fields dquad_def)
  from narrowing_rule [OF inner_step_w_start l] g p
  have "x_high w_next ! 0 = x_cur w_start ! 0 \<and> x_low w_next ! 0 = x_low w_start ! 0"
    by simp
  with inner_step_w_start l g p show ?thesis by simp
qed

subsection \<open>The best value of a cycle\<close>

lemma fle_trans: "fle a b \<Longrightarrow> fle b c \<Longrightarrow> fle a c"
  by (cases a; cases b; cases c) simp_all

lemma fle_refl: "a \<noteq> NaN \<Longrightarrow> fle a a"
  by (cases a) simp_all

lemma flt_fle: "flt a b \<Longrightarrow> fle a b"
  by (cases a; cases b) simp_all

lemma inner_step_fx_best:
  assumes "inner_step f df s = Inr s'"
  shows "fx_best s' = (if flt (Fin (f (x_cur s))) (fx_best s) then Fin (f (x_cur s)) else fx_best s)"
  using assms by (rule inner_step_Inr) simp

lemma inner_step_fx_best_NaN:
  "inner_step f df s = Inr s' \<Longrightarrow> fx_best s \<noteq> NaN \<Longrightarrow> fx_best s' \<noteq> NaN"
  by (simp add: inner_step_fx_best)

lemma inner_step_fx_best_fle:
  "inner_step f df s = Inr s' \<Longrightarrow> fx_best s \<noteq> NaN \<Longrightarrow> fle (fx_best s') (fx_best s)"
  by (simp add: inner_step_fx_best flt_fle fle_refl)

lemma inner_reach_fx_best_NaN:
  "inner_reach f df eps s0 s \<Longrightarrow> fx_best s0 \<noteq> NaN \<Longrightarrow> fx_best s \<noteq> NaN"
  by (induction rule: inner_reach.induct) (auto dest: inner_step_fx_best_NaN)

text \<open>
  Claim C7. Within one outer iteration the values of \<open>fx_best\<close> are non-increasing across the
  inner-loop steps: for any two states of the inner loop of a cycle, the later one holds an
  \<open>fx_best\<close> that is at most the earlier one's.
\<close>

theorem fx_best_non_increasing:
  assumes "inner_reach f df eps (start_cycle s0) s1" and "inner_reach f df eps s1 s2"
  shows "fle (fx_best s2) (fx_best s1)"
proof -
  have n1: "fx_best s1 \<noteq> NaN"
    using inner_reach_fx_best_NaN [OF assms(1)] by (simp add: start_cycle_def)
  from assms(2) show ?thesis
  proof (induction rule: inner_reach.induct)
    case inner_start
    show ?case using n1 by (rule fle_refl)
  next
    case (inner_next s s')
    have "fx_best s \<noteq> NaN"
      using inner_reach_fx_best_NaN [OF inner_next.hyps(1) n1] .
    then have "fle (fx_best s') (fx_best s)"
      using inner_next.hyps(3) by (rule inner_step_fx_best_fle [rotated])
    then show ?case using inner_next.IH by (rule fle_trans)
  qed
qed


lemma inner_guard_w_start: "inner_guard (1 / 10 ^ 10) w_start"
  by (simp add: inner_guard_def w_start_fields d_def fsum_def fsub_def fgt_def)

lemma inner_reach_w_next: "inner_reach quad dquad (1 / 10 ^ 10) w_start w_next"
  by (rule inner_next [OF inner_start inner_guard_w_start inner_step_w_start])

theorem fx_best_non_increasing_witness:
  "inner_reach quad dquad (1 / 10 ^ 10) (start_cycle (init_locals [1, - 1] 2 (sconst 0))) w_start \<and>
   inner_reach quad dquad (1 / 10 ^ 10) w_start w_next \<and>
   fle (fx_best w_next) (fx_best w_start)"
proof -
  have a: "inner_reach quad dquad (1 / 10 ^ 10) (start_cycle (init_locals [1, - 1] 2 (sconst 0))) w_start"
    unfolding w_start_def by (rule inner_start)
  from fx_best_non_increasing [OF a inner_reach_w_next] a inner_reach_w_next
  show ?thesis by simp
qed

subsection \<open>The iterate stays in the box\<close>

lemma narrow_Inr:
  assumes "narrow fx fy x dfx y hi lo = Inr (hi', lo')"
  obtains c where
    "hi' = map (\<lambda>i. if i < length x \<and> c i then x ! i else hi ! i) [0..<length hi]"
    "lo' = map (\<lambda>i. if i < length x \<and> \<not> c i then x ! i else lo ! i) [0..<length lo]"
    "length x \<le> length hi" "length x \<le> length lo"
proof (cases "fle (Fin fx) fy")
  case True
  then have g: "narrow_grad x dfx hi lo = Inr (hi', lo')"
    using assms by (simp add: narrow_def)
  show ?thesis
    using narrow_grad_Inr [OF g] by (rule that [of "\<lambda>i. dfx ! i > 0"])
next
  case False
  then have g: "narrow_pos x y hi lo = Inr (hi', lo')"
    using assms by (simp add: narrow_def)
  show ?thesis
    using narrow_pos_Inr [OF g] by (rule that [of "\<lambda>i. fgt (Fin (x ! i)) (y ! i)"])
qed

lemma in_box_step:
  assumes b: "in_box s" and st: "inner_step f df s = Inr s'"
  shows "in_box s'"
proof -
  from st obtain hi lo where
    n: "narrow (f (x_cur s)) (fy_old s) (x_cur s) (df (x_cur s)) (y_old s) (x_high s) (x_low s) = Inr (hi, lo)"
    and s': "x_high s' = hi" "x_low s' = lo" "x_cur s' = map (\<lambda>c. c / 2) (vadd hi lo)"
    by (rule inner_step_Inr) simp
  from n obtain c where
    hi: "hi = map (\<lambda>i. if i < length (x_cur s) \<and> c i then x_cur s ! i else x_high s ! i) [0..<length (x_high s)]"
    and lo: "lo = map (\<lambda>i. if i < length (x_cur s) \<and> \<not> c i then x_cur s ! i else x_low s ! i) [0..<length (x_low s)]"
    by (rule narrow_Inr)
  from b have len: "length (x_low s) = length (x_cur s)" "length (x_high s) = length (x_cur s)"
    and ord: "\<And>i. i < length (x_cur s) \<Longrightarrow> x_low s ! i \<le> x_cur s ! i \<and> x_cur s ! i \<le> x_high s ! i"
    by (simp_all add: in_box_def)
  have lhi: "length hi = length (x_cur s)" and llo: "length lo = length (x_cur s)"
    using hi lo len by simp_all
  have "lo ! i \<le> (hi ! i + lo ! i) / 2 \<and> (hi ! i + lo ! i) / 2 \<le> hi ! i" if "i < length (x_cur s)" for i
  proof -
    have "lo ! i \<le> hi ! i"
      using that ord [OF that] len by (simp add: hi lo)
    then show ?thesis by simp
  qed
  then show ?thesis
    using lhi llo by (simp add: in_box_def s' vadd_def)
qed

lemma in_box_start:
  assumes "0 \<le> trust_range s0 \<or> x_cur s0 = []"
  shows "in_box (start_cycle s0)"
  using assms by (auto simp: in_box_def start_cycle_def vadd_def vsub_def smul_def ones_def)

lemma in_box_reach:
  "inner_reach f df eps s0 s \<Longrightarrow> in_box s0 \<Longrightarrow> in_box s"
  by (induction rule: inner_reach.induct) (auto intro: in_box_step)

lemma box_not_ok_start:
  assumes "trust_range s0 < 0" and "x_cur s0 \<noteq> []"
  shows "\<not> box_ok (x_high (start_cycle s0)) (x_low (start_cycle s0))"
proof -
  obtain a as where x: "x_cur s0 = a # as"
    using assms(2) by (cases "x_cur s0") auto
  show ?thesis
    using assms(1) by (simp add: box_ok_def start_cycle_def vadd_def vsub_def smul_def ones_def x)
qed

lemma inner_reach_stuck:
  assumes "inner_reach f df eps s0 s" and "\<not> box_ok (x_high s0) (x_low s0)"
  shows "s = s0"
  using assms
proof (induction rule: inner_reach.induct)
  case inner_start
  show ?case by simp
next
  case (inner_next s s')
  then have "inner_step f df s0 = Inr s'" by simp
  then show ?case
    using inner_next.prems by (simp add: inner_step_def)
qed

lemma iterate_in_box_cycle:
  assumes r: "inner_reach f df eps (start_cycle s0) t"
    and h: "0 \<le> trust_range s0 \<or> box_ok (x_high t) (x_low t)"
  shows "in_box t"
proof (cases "0 \<le> trust_range s0 \<or> x_cur s0 = []")
  case True
  then show ?thesis
    using in_box_reach [OF r] in_box_start by blast
next
  case False
  then have n: "\<not> box_ok (x_high (start_cycle s0)) (x_low (start_cycle s0))"
    using box_not_ok_start [of s0] by simp
  have "t = start_cycle s0"
    using inner_reach_stuck [OF r n] .
  then show ?thesis
    using h n False by simp
qed

lemma sum_squares_nonneg: "0 \<le> sum_list (map (\<lambda>c. c * c) (v :: real list))"
  by (induction v) simp_all

lemma d_fin_nonneg: "0 \<le> d_fin a b"
  by (simp add: d_fin_def sum_squares_nonneg)

lemma finish_cycle_trust_range:
  "finish_cycle f eps s = Inr s' \<Longrightarrow> 0 \<le> trust_range s'"
  unfolding finish_cycle_def Let_def
  by (auto split: sum.splits option.splits prod.splits simp: d_fin_nonneg)

lemma outer_body_trust_range:
  "outer_body f df eps s = Some (Inr s') \<Longrightarrow> 0 \<le> trust_range s'"
  unfolding outer_body_def
  by (auto split: option.splits sum.splits dest: finish_cycle_trust_range)

lemma cycle_reach_trust_range:
  "cycle_reach f df eps s0 s \<Longrightarrow> s = s0 \<or> 0 \<le> trust_range s"
  by (induction rule: cycle_reach.induct) (auto dest: outer_body_trust_range)

text \<open>
  Claim C3. At every inner-loop step of every outer iteration the iterate lies in the box:
  \<open>low[i] \<le> x[i] \<le> high[i]\<close> in every dimension. \<open>s\<close> is any state at the head of the outer
  loop of a run started with the point \<open>x\<close> and the trust range \<open>r\<close>, \<open>t\<close> any state at the head
  of the inner loop of the cycle that starts there. The property holds for every such \<open>t\<close> when
  \<open>r\<close> is not negative, and for any \<open>r\<close> at every \<open>t\<close> whose step passes the assertion of line 113
  (with a negative \<open>r\<close> the first box is inverted and the first step raises AssertionError).
\<close>

theorem iterate_in_box:
  assumes "cycle_reach f df eps (init_locals x r g) s"
    and "inner_reach f df eps (start_cycle s) t"
    and "0 \<le> r \<or> box_ok (x_high t) (x_low t)"
  shows "in_box t"
proof -
  have "0 \<le> trust_range s \<or> box_ok (x_high t) (x_low t)"
    using cycle_reach_trust_range [OF assms(1)] assms(3) by (auto simp: init_locals_def)
  with assms(2) show ?thesis by (rule iterate_in_box_cycle)
qed


theorem iterate_in_box_witness:
  "cycle_reach quad dquad (1 / 10 ^ 10) (init_locals [1, - 1] 2 (sconst 0))
     (init_locals [1, - 1] 2 (sconst 0)) \<and>
   inner_reach quad dquad (1 / 10 ^ 10) (start_cycle (init_locals [1, - 1] 2 (sconst 0))) w_next \<and>
   (0::real) \<le> 2 \<and> in_box w_next"
proof -
  have a: "cycle_reach quad dquad (1 / 10 ^ 10) (init_locals [1, - 1] 2 (sconst 0))
     (init_locals [1, - 1] 2 (sconst 0))"
    by (rule cycle_start)
  have b: "inner_reach quad dquad (1 / 10 ^ 10) (start_cycle (init_locals [1, - 1] 2 (sconst 0))) w_next"
    using inner_reach_w_next by (simp add: w_start_def)
  have c: "(0::real) \<le> 2 \<or> box_ok (x_high w_next) (x_low w_next)"
    by simp
  from iterate_in_box [OF a b c] a b show ?thesis by simp
qed

subsection \<open>The restart loop\<close>

lemma MultiDimensionalBisection_zero:
  "0 \<in> set x \<Longrightarrow> MultiDimensionalBisection f df x tr eps g = Some (Inr (init_locals x tr g))"
  using outer_guard_zero [of x eps]
  by (simp add: MultiDimensionalBisection_def outer_loop.simps init_locals_def)

lemma restart_body_Inr:
  assumes "restart_body f df nv s = Some (Inr s')"
  obtains l where
    "MultiDimensionalBisection f df (fst (draw nv (g_rng s))) 2 (1 / 10 ^ 10) (snd (draw nv (g_rng s)))
       = Some (Inr l)"
    "s' = s\<lparr> g_i := g_i s + 1,
             g_x_best := (if f (x_cur l) < f (g_x_best s) then x_cur l else g_x_best s),
             g_rng := rng l \<rparr>"
  using assms unfolding restart_body_def
  by (auto split: prod.splits option.splits sum.splits)

text \<open>
  Claim C8. The objective value of the global best after \<open>k + 1\<close> completed restarts is at most
  its value after \<open>k\<close> restarts: a restart that completes replaces the module-level \<^verbatim>\<open>x_best\<close> only
  by a point with a strictly smaller value of \<^verbatim>\<open>f\<close> (lines 162--163).
\<close>

theorem restart_keeps_best_non_increasing:
  assumes "restart_body f df nv s = Some (Inr s')"
  shows "f (g_x_best s') \<le> f (g_x_best s)"
  using assms by (rule restart_body_Inr) auto

lemma draw_sconst: "draw 2 (sconst c) = ([c, c], sconst c)"
  by (simp add: draw_def numeral_2_eq_2)

lemma restart_body_w_globals:
  "restart_body quad dquad 2 w_globals =
     Some (Inr \<lparr> g_x_best = [0, 0], g_i = 1, g_rng = sconst 0 \<rparr>)"
  by (simp add: restart_body_def w_globals_def draw_sconst MultiDimensionalBisection_zero
      init_locals_def quad_def)

theorem restart_keeps_best_non_increasing_witness:
  "restart_body quad dquad 2 w_globals =
     Some (Inr \<lparr> g_x_best = [0, 0], g_i = 1, g_rng = sconst 0 \<rparr>) \<and>
   quad (g_x_best \<lparr> g_x_best = [0, 0], g_i = 1, g_rng = sconst 0 \<rparr>) \<le> quad (g_x_best w_globals)"
  using restart_keeps_best_non_increasing [OF restart_body_w_globals] restart_body_w_globals
  by simp

subsection \<open>The choice of the new iterate\<close>

lemma inner_loop_reach_aux:
  assumes "inner_loop f df eps s = Some y"
  shows "\<forall>t. y = Inr t \<longrightarrow>
     (\<forall>s0. inner_reach f df eps s0 s \<longrightarrow> inner_reach f df eps s0 t) \<and> \<not> inner_guard eps t"
proof (rule inner_loop.raw_induct [where P = "\<lambda>f df eps s y. \<forall>t. y = Inr t \<longrightarrow>
     (\<forall>s0. inner_reach f df eps s0 s \<longrightarrow> inner_reach f df eps s0 t) \<and> \<not> inner_guard eps t",
     OF _ assms])
  fix il :: "(real list \<Rightarrow> real) \<Rightarrow> (real list \<Rightarrow> real list) \<Rightarrow> real \<Rightarrow> locals \<Rightarrow> (error + locals) option"
  fix f df eps s fa
  assume ih: "\<And>f' df eps s y. il f' df eps s = Some y \<Longrightarrow> \<forall>t. y = Inr t \<longrightarrow>
     (\<forall>s0. inner_reach f' df eps s0 s \<longrightarrow> inner_reach f' df eps s0 t) \<and> \<not> inner_guard eps t"
  assume eq: "(if inner_guard eps s
      then case inner_step f df s of Inl e \<Rightarrow> Some (Inl e) | Inr s' \<Rightarrow> il f df eps s'
      else Some (Inr s)) = Some fa"
  show "\<forall>t. fa = Inr t \<longrightarrow>
     (\<forall>s0. inner_reach f df eps s0 s \<longrightarrow> inner_reach f df eps s0 t) \<and> \<not> inner_guard eps t"
  proof (cases "inner_guard eps s")
    case False
    then show ?thesis using eq by auto
  next
    case True
    show ?thesis
    proof (intro allI impI)
      fix t assume fa: "fa = Inr t"
      from eq True fa obtain s1 where st: "inner_step f df s = Inr s1"
        and rec: "il f df eps s1 = Some (Inr t)"
        by (auto split: sum.splits)
      from ih [OF rec] have a: "\<forall>s0. inner_reach f df eps s0 s1 \<longrightarrow> inner_reach f df eps s0 t"
        and ng: "\<not> inner_guard eps t" by simp_all
      show "(\<forall>s0. inner_reach f df eps s0 s \<longrightarrow> inner_reach f df eps s0 t) \<and> \<not> inner_guard eps t"
        using a ng True st by (auto intro: inner_next)
    qed
  qed
qed

lemma inner_loop_reach:
  "inner_loop f df eps s = Some (Inr t) \<Longrightarrow> inner_reach f df eps s t \<and> \<not> inner_guard eps t"
  using inner_loop_reach_aux [of f df eps s "Inr t"] by (auto intro: inner_start)


lemma fsum_replicate_PInf: "fsum (replicate (Suc k) PInf) = PInf"
  by (induction k) (simp_all add: fsum_def)

lemma d_PInf:
  assumes "x \<noteq> []"
  shows "d (map Fin x) (replicate (length x) PInf) = PInf"
proof -
  have "map fsq (map2 fsub (map Fin x) (replicate (length x) PInf)) = replicate (length x) PInf"
    by (rule nth_equalityI) (simp_all add: fsub_def)
  moreover obtain k where "length x = Suc k"
    using assms by (cases x) auto
  ultimately show ?thesis
    by (simp add: d_def fsum_replicate_PInf del: replicate_Suc)
qed

lemma inner_guard_start:
  "x_cur s \<noteq> [] \<Longrightarrow> inner_guard eps (start_cycle s)"
  by (simp add: inner_guard_def start_cycle_def d_PInf fgt_def)

lemma outer_guard_nonempty: "outer_guard eps x xp = Inr b \<Longrightarrow> x \<noteq> []"
  by (auto simp: outer_guard_def np_max_def)

lemma inner_step_best:
  assumes "inner_step f df s = Inr s'"
    and "fx_best s = PInf \<or> (\<exists>xb. x_best s = Some xb \<and> fx_best s = Fin (f xb))"
  shows "\<exists>xb. x_best s' = Some xb \<and> fx_best s' = Fin (f xb)"
  using assms(1)
proof (rule inner_step_Inr)
  fix hi lo
  assume "s' = s\<lparr> n_steps := n_steps s + 1,
             fx_cur := Some (Fin (f (x_cur s))),
             x_high := hi,
             x_low := lo,
             x_best := (if flt (Fin (f (x_cur s))) (fx_best s) then Some (x_cur s) else x_best s),
             fx_best := (if flt (Fin (f (x_cur s))) (fx_best s) then Fin (f (x_cur s)) else fx_best s),
             y_old := map Fin (x_cur s),
             fy_old := Fin (f (x_cur s)),
             x_cur := map (\<lambda>c. c / 2) (vadd hi lo),
             trace := trace s @ [Check, EvalF (x_cur s), EvalDF (x_cur s), Narrowed] \<rparr>"
  then show ?thesis using assms(2) by auto
qed

lemma inner_reach_best:
  "inner_reach f df eps s1 t \<Longrightarrow> \<exists>xb. x_best s1 = Some xb \<and> fx_best s1 = Fin (f xb) \<Longrightarrow>
     \<exists>xb. x_best t = Some xb \<and> fx_best t = Fin (f xb)"
  by (induction rule: inner_reach.induct) (auto dest: inner_step_best)

lemma inner_loop_start_best:
  assumes "x_cur s \<noteq> []" and "inner_loop f df eps (start_cycle s) = Some (Inr t)"
  shows "\<exists>xb. x_best t = Some xb \<and> fx_best t = Fin (f xb)"
proof -
  from assms obtain s1 where st: "inner_step f df (start_cycle s) = Inr s1"
    and rec: "inner_loop f df eps s1 = Some (Inr t)"
    by (subst (asm) inner_loop.simps) (auto simp: inner_guard_start split: sum.splits)
  have "fx_best (start_cycle s) = PInf" by (simp add: start_cycle_def)
  then have "\<exists>xb. x_best s1 = Some xb \<and> fx_best s1 = Fin (f xb)"
    using inner_step_best [OF st] by simp
  then show ?thesis
    using inner_loop_reach [OF rec] inner_reach_best by blast
qed

lemma finish_cycle_x_cur:
  assumes "finish_cycle f eps t = Inr s'" and "x_best t = Some xb" and "fx_best t = Fin (f xb)"
  shows "x_cur s' = (if f (x_low t) \<le> f (x_high t) \<and> f (x_low t) \<le> f xb then x_low t
                     else if f (x_high t) \<le> f xb then x_high t else xb)"
  using assms unfolding finish_cycle_def Let_def np_argmin_def
  by (auto split: option.splits prod.splits if_splits)

text \<open>
  Claim C2. At every exit of the inner loop the new outer iterate is the element of
  \<open>(x_low, x_high, x_best)\<close> with the least objective value, ties going to the first in the order
  low, high, best. \<open>t\<close> is the state in which the inner loop of the cycle exits; \<open>fx_best\<close> is then
  the objective value of \<open>x_best\<close>.
\<close>

theorem new_iterate_is_argmin:
  assumes "outer_guard eps (x_cur s) (x_prev s) = Inr True"
    and "outer_body f df eps s = Some (Inr s')"
  shows "\<exists>t xb. inner_loop f df eps (start_cycle s) = Some (Inr t) \<and> x_best t = Some xb \<and>
           fx_best t = Fin (f xb) \<and>
           (x_cur s' = x_low t \<and> f (x_low t) \<le> f (x_high t) \<and> f (x_low t) \<le> f xb \<or>
            x_cur s' = x_high t \<and> f (x_high t) < f (x_low t) \<and> f (x_high t) \<le> f xb \<or>
            x_cur s' = xb \<and> f xb < f (x_low t) \<and> f xb < f (x_high t))"
proof -
  from assms(2) obtain t where il: "inner_loop f df eps (start_cycle s) = Some (Inr t)"
    and fc: "finish_cycle f eps t = Inr s'"
    by (auto simp: outer_body_def split: option.splits sum.splits)
  have "x_cur s \<noteq> []"
    using assms(1) by (rule outer_guard_nonempty)
  then obtain xb where b: "x_best t = Some xb" "fx_best t = Fin (f xb)"
    using inner_loop_start_best [OF _ il] by blast
  from finish_cycle_x_cur [OF fc b] il b show ?thesis
    by (auto split: if_splits)
qed


lemma d_single: "d [Fin a] [Fin b] = Fin \<bar>a - b\<bar>"
  by (simp add: d_def fsum_def fsub_def)

lemma d_single_PInf: "d [Fin a] [PInf] = PInf"
  by (simp add: d_def fsum_def fsub_def)

lemma d_fin_single: "d_fin [a] [b] = \<bar>a - b\<bar>"
  by (simp add: d_fin_def vsub_def)

lemmas eval_defs = inner_guard_def inner_step_def box_ok_def narrow_def narrow_grad_def
  narrow_grad_at_def narrow_pos_def narrow_pos_at_def vadd_def vsub_def smul_def ones_def
  quad_def dquad_def d_single d_single_PInf d_fin_single fgt_def Let_def start_cycle_def
  init_locals_def finish_cycle_def np_argmin_def draw_def outer_guard_def np_max_def fdiv_def
  fsub_def

lemma outer_guard_c_init: "outer_guard (1 / 2) (x_cur c_init) (x_prev c_init) = Inr True"
  by (simp add: c_init_def eval_defs)

lemma inner_loop_c_init:
  "inner_loop quad dquad (1 / 2) (start_cycle c_init) = Some (Inr c_inner)"
  by (simp add: c_init_def c_inner_def inner_loop.simps eval_defs)

lemma finish_cycle_c_inner: "finish_cycle quad (1 / 2) c_inner = Inr c_cycle"
  by (simp add: c_inner_def c_cycle_def eval_defs)

lemma outer_body_c_init: "outer_body quad dquad (1 / 2) c_init = Some (Inr c_cycle)"
  by (simp add: outer_body_def inner_loop_c_init finish_cycle_c_inner)

theorem new_iterate_is_argmin_witness:
  "outer_guard (1 / 2) (x_cur c_init) (x_prev c_init) = Inr True \<and>
   outer_body quad dquad (1 / 2) c_init = Some (Inr c_cycle) \<and>
   (\<exists>t xb. inner_loop quad dquad (1 / 2) (start_cycle c_init) = Some (Inr t) \<and>
      x_best t = Some xb \<and> fx_best t = Fin (quad xb) \<and>
      (x_cur c_cycle = x_low t \<and> quad (x_low t) \<le> quad (x_high t) \<and> quad (x_low t) \<le> quad xb \<or>
       x_cur c_cycle = x_high t \<and> quad (x_high t) < quad (x_low t) \<and> quad (x_high t) \<le> quad xb \<or>
       x_cur c_cycle = xb \<and> quad xb < quad (x_low t) \<and> quad xb < quad (x_high t)))"
  using new_iterate_is_argmin [OF outer_guard_c_init outer_body_c_init]
    outer_guard_c_init outer_body_c_init
  by simp

subsection \<open>The box check\<close>

lemma MultiDimensionalBisection_c_final:
  "MultiDimensionalBisection quad dquad [1] 2 (1 / 2) (sconst 0) = Some (Inr c_final)"
  by (simp add: MultiDimensionalBisection_def outer_loop.simps outer_body_def inner_loop.simps
      eval_defs c_final_def)

text \<open>
  Claim C6 as stated fails: the box is not checked before the evaluations of \<^verbatim>\<open>f\<close> at the final
  low and high bounds (lines 141--142). In this call the last box update of each cycle is
  followed by the two evaluations with no check in between.
\<close>

theorem final_bounds_evaluated_unchecked:
  "MultiDimensionalBisection quad dquad [1] 2 (1 / 2) (sconst 0) = Some (Inr c_final) \<and>
   \<not> checked_before_eval False (trace c_final)"
  by (simp add: MultiDimensionalBisection_c_final) (simp add: c_final_def)

lemma inner_reach_loop:
  "inner_reach f df eps s0 t \<Longrightarrow> inner_loop f df eps s0 = inner_loop f df eps t"
proof (induction rule: inner_reach.induct)
  case inner_start
  show ?case by simp
next
  case (inner_next s s')
  have "inner_loop f df eps s = inner_loop f df eps s'"
    using inner_next.hyps(2,3) by (subst inner_loop.simps) simp
  with inner_next.IH show ?case by simp
qed

lemma cycle_reach_loop:
  "cycle_reach f df eps s0 s \<Longrightarrow> outer_loop f df eps s0 = outer_loop f df eps s"
proof (induction rule: cycle_reach.induct)
  case cycle_start
  show ?case by simp
next
  case (cycle_next s s')
  have "outer_loop f df eps s = outer_loop f df eps s'"
    using cycle_next.hyps(2,3) by (subst outer_loop.simps) simp
  with cycle_next.IH show ?case by simp
qed

lemma inner_loop_assert:
  "inner_guard eps t \<Longrightarrow> \<not> box_ok (x_high t) (x_low t) \<Longrightarrow>
     inner_loop f df eps t = Some (Inl AssertionError)"
  by (subst inner_loop.simps) (simp add: inner_step_def)

lemma inner_step_trace:
  "inner_step f df t = Inr t' \<Longrightarrow>
     trace t' = trace t @ [Check, EvalF (x_cur t), EvalDF (x_cur t), Narrowed]"
  by (erule inner_step_Inr) simp

text \<open>
  Claim C6, amended. At the top of every inner-loop step, before that step's evaluations of
  \<^verbatim>\<open>f\<close> and \<^verbatim>\<open>df\<close>, the box invariant \<open>low[i] < high[i]\<close> is checked for all \<open>i\<close> (line 113); a
  violation raises AssertionError, which ends the whole call and not only the inner loop. (The
  evaluations at the final bounds after the inner loop are not preceded by a check.) \<open>t\<close> is any
  state in which a run enters an inner-loop step.
\<close>

theorem assertion_guards_inner_steps:
  assumes "cycle_reach f df eps (init_locals x r g) s"
    and "outer_guard eps (x_cur s) (x_prev s) = Inr True"
    and "inner_reach f df eps (start_cycle s) t"
    and "inner_guard eps t"
  shows "if box_ok (x_high t) (x_low t)
         then \<forall>t'. inner_step f df t = Inr t' \<longrightarrow>
                trace t' = trace t @ [Check, EvalF (x_cur t), EvalDF (x_cur t), Narrowed]
         else MultiDimensionalBisection f df x r eps g = Some (Inl AssertionError)"
proof (cases "box_ok (x_high t) (x_low t)")
  case True
  then show ?thesis by (simp add: inner_step_trace)
next
  case False
  have "inner_loop f df eps (start_cycle s) = Some (Inl AssertionError)"
    using inner_reach_loop [OF assms(3)] inner_loop_assert [OF assms(4) False] by simp
  then have "outer_body f df eps s = Some (Inl AssertionError)"
    by (simp add: outer_body_def)
  then have "outer_loop f df eps s = Some (Inl AssertionError)"
    using assms(2) by (subst outer_loop.simps) simp
  then show ?thesis
    using cycle_reach_loop [OF assms(1)] False by (simp add: MultiDimensionalBisection_def)
qed

theorem assertion_guards_inner_steps_witness:
  "cycle_reach quad dquad (1 / 2) (init_locals [1] 0 (sconst 0)) (init_locals [1] 0 (sconst 0)) \<and>
   outer_guard (1 / 2) (x_cur (init_locals [1] 0 (sconst 0))) (x_prev (init_locals [1] 0 (sconst 0)))
     = Inr True \<and>
   inner_reach quad dquad (1 / 2) (start_cycle (init_locals [1] 0 (sconst 0)))
     (start_cycle (init_locals [1] 0 (sconst 0))) \<and>
   inner_guard (1 / 2) (start_cycle (init_locals [1] 0 (sconst 0))) \<and>
   \<not> box_ok (x_high (start_cycle (init_locals [1] 0 (sconst 0))))
       (x_low (start_cycle (init_locals [1] 0 (sconst 0)))) \<and>
   MultiDimensionalBisection quad dquad [1] 0 (1 / 2) (sconst 0) = Some (Inl AssertionError)"
proof -
  have a: "cycle_reach quad dquad (1 / 2) (init_locals [1] 0 (sconst 0)) (init_locals [1] 0 (sconst 0))"
    by (rule cycle_start)
  have b: "outer_guard (1 / 2) (x_cur (init_locals [1] 0 (sconst 0)))
      (x_prev (init_locals [1] 0 (sconst 0))) = Inr True"
    by (simp add: eval_defs)
  have c: "inner_reach quad dquad (1 / 2) (start_cycle (init_locals [1] 0 (sconst 0)))
     (start_cycle (init_locals [1] 0 (sconst 0)))"
    by (rule inner_start)
  have e: "inner_guard (1 / 2) (start_cycle (init_locals [1] 0 (sconst 0)))"
    by (simp add: eval_defs)
  have n: "\<not> box_ok (x_high (start_cycle (init_locals [1] 0 (sconst 0))))
       (x_low (start_cycle (init_locals [1] 0 (sconst 0))))"
    by (simp add: eval_defs)
  from assertion_guards_inner_steps [OF a b c e] n
  have "MultiDimensionalBisection quad dquad [1] 0 (1 / 2) (sconst 0) = Some (Inl AssertionError)"
    by simp
  with a b c e n show ?thesis by simp
qed

subsection \<open>The samples a run consumes\<close>

lemma outer_loop_reach_aux:
  assumes "outer_loop f df eps s = Some y"
  shows "\<forall>t. y = Inr t \<longrightarrow>
     (\<forall>s0. cycle_reach f df eps s0 s \<longrightarrow> cycle_reach f df eps s0 t) \<and>
     outer_guard eps (x_cur t) (x_prev t) = Inr False"
proof (rule outer_loop.raw_induct [where P = "\<lambda>f df eps s y. \<forall>t. y = Inr t \<longrightarrow>
     (\<forall>s0. cycle_reach f df eps s0 s \<longrightarrow> cycle_reach f df eps s0 t) \<and>
     outer_guard eps (x_cur t) (x_prev t) = Inr False", OF _ assms])
  fix ol :: "(real list \<Rightarrow> real) \<Rightarrow> (real list \<Rightarrow> real list) \<Rightarrow> real \<Rightarrow> locals \<Rightarrow> (error + locals) option"
  fix f df eps s fa
  assume ih: "\<And>f' df eps s y. ol f' df eps s = Some y \<Longrightarrow> \<forall>t. y = Inr t \<longrightarrow>
     (\<forall>s0. cycle_reach f' df eps s0 s \<longrightarrow> cycle_reach f' df eps s0 t) \<and>
     outer_guard eps (x_cur t) (x_prev t) = Inr False"
  assume eq: "(case outer_guard eps (x_cur s) (x_prev s) of
        Inl e \<Rightarrow> Some (Inl e)
      | Inr b \<Rightarrow>
         (if b
          then (case outer_body f df eps s of
                  None \<Rightarrow> None
                | Some (Inl e) \<Rightarrow> Some (Inl e)
                | Some (Inr s') \<Rightarrow> ol f df eps s')
          else Some (Inr s))) = Some fa"
  show "\<forall>t. fa = Inr t \<longrightarrow>
     (\<forall>s0. cycle_reach f df eps s0 s \<longrightarrow> cycle_reach f df eps s0 t) \<and>
     outer_guard eps (x_cur t) (x_prev t) = Inr False"
  proof (intro allI impI)
    fix t assume fa: "fa = Inr t"
    from eq fa obtain b where g: "outer_guard eps (x_cur s) (x_prev s) = Inr b"
      by (auto split: sum.splits)
    show "(\<forall>s0. cycle_reach f df eps s0 s \<longrightarrow> cycle_reach f df eps s0 t) \<and>
       outer_guard eps (x_cur t) (x_prev t) = Inr False"
    proof (cases b)
      case False
      then show ?thesis using eq fa g by auto
    next
      case True
      with eq fa g obtain s1 where ob: "outer_body f df eps s = Some (Inr s1)"
        and rec: "ol f df eps s1 = Some (Inr t)"
        by (auto split: option.splits sum.splits)
      from ih [OF rec] have a: "\<forall>s0. cycle_reach f df eps s0 s1 \<longrightarrow> cycle_reach f df eps s0 t"
        and ng: "outer_guard eps (x_cur t) (x_prev t) = Inr False" by simp_all
      show ?thesis
        using a ng True g ob by (auto intro: cycle_next)
    qed
  qed
qed

lemma outer_loop_reach:
  "outer_loop f df eps s = Some (Inr t) \<Longrightarrow>
     cycle_reach f df eps s t \<and> outer_guard eps (x_cur t) (x_prev t) = Inr False"
  using outer_loop_reach_aux [of f df eps s "Inr t"] by (auto intro: cycle_start)


lemma shaped_start: "shaped (length (x_cur s)) (start_cycle s)"
  by (simp add: shaped_def start_cycle_def vadd_def vsub_def smul_def ones_def)

lemma shaped_step:
  assumes st: "inner_step f df t = Inr t'" and sh: "shaped k t"
  shows "shaped k t' \<and> rng t' = rng t \<and> m_cycles t' = m_cycles t \<and> x_prev t' = x_prev t"
proof -
  from st obtain hi lo where
    n: "narrow (f (x_cur t)) (fy_old t) (x_cur t) (df (x_cur t)) (y_old t) (x_high t) (x_low t) = Inr (hi, lo)"
    and t': "t' = t\<lparr> n_steps := n_steps t + 1,
             fx_cur := Some (Fin (f (x_cur t))),
             x_high := hi,
             x_low := lo,
             x_best := (if flt (Fin (f (x_cur t))) (fx_best t) then Some (x_cur t) else x_best t),
             fx_best := (if flt (Fin (f (x_cur t))) (fx_best t) then Fin (f (x_cur t)) else fx_best t),
             y_old := map Fin (x_cur t),
             fy_old := Fin (f (x_cur t)),
             x_cur := map (\<lambda>c. c / 2) (vadd hi lo),
             trace := trace t @ [Check, EvalF (x_cur t), EvalDF (x_cur t), Narrowed] \<rparr>"
    by (rule inner_step_Inr)
  from n obtain c where
    hi: "hi = map (\<lambda>i. if i < length (x_cur t) \<and> c i then x_cur t ! i else x_high t ! i) [0..<length (x_high t)]"
    and lo: "lo = map (\<lambda>i. if i < length (x_cur t) \<and> \<not> c i then x_cur t ! i else x_low t ! i) [0..<length (x_low t)]"
    by (rule narrow_Inr)
  have "length hi = k" "length lo = k"
    using sh by (simp_all add: hi lo shaped_def)
  then show ?thesis
    using sh by (auto simp: t' shaped_def vadd_def)
qed

lemma shaped_reach:
  "inner_reach f df eps s0 t \<Longrightarrow> shaped k s0 \<Longrightarrow>
     shaped k t \<and> rng t = rng s0 \<and> m_cycles t = m_cycles s0 \<and> x_prev t = x_prev s0"
  by (induction rule: inner_reach.induct) (auto dest: shaped_step)

lemma argmin3_PInf: "argmin_from 0 (Fin a) 1 [Fin b, PInf] < 2"
  by simp

lemma argmin3: "argmin_from 0 (Fin a) 1 [Fin b, c] < 3"
  by simp

lemma finish_cycle_shape:
  assumes fc: "finish_cycle f eps t = Inr s'" and sh: "shaped k t"
  shows "length (x_cur s') = k \<and> rng s' = sdrop k (rng t) \<and> m_cycles s' = m_cycles t"
proof -
  from fc obtain xb fx where xb: "x_best t = Some xb" and fx: "fx_cur t = Some fx"
    by (auto simp: finish_cycle_def Let_def np_argmin_def split: option.splits)
  define a where "a = argmin_from 0 (Fin (f (x_low t))) 1 [Fin (f (x_high t)), fx_best t]"
  have len: "length ([x_low t, x_high t, xb] ! a) = k"
  proof (cases "fx_best t = PInf")
    case True
    then have "a < 2" by (simp add: a_def)
    then have "a = 0 \<or> a = 1" by auto
    then show ?thesis using sh by (auto simp: shaped_def)
  next
    case False
    then have "length xb = k" using sh xb by (simp add: shaped_def)
    moreover have "a < 3" unfolding a_def by (rule argmin3)
    then have "a = 0 \<or> a = 1 \<or> a = 2" by auto
    ultimately show ?thesis using sh by (auto simp: shaped_def)
  qed
  from fc have "x_cur s' = [x_low t, x_high t, xb] ! a"
    and "rng s' = sdrop (length ([x_low t, x_high t, xb] ! a)) (rng t)"
    and "m_cycles s' = m_cycles t"
    by (auto simp: finish_cycle_def Let_def np_argmin_def xb fx a_def draw_def)
  then show ?thesis using len by simp
qed

lemma outer_body_shape:
  assumes "outer_body f df eps s = Some (Inr s')"
  shows "length (x_cur s') = length (x_cur s) \<and> rng s' = sdrop (length (x_cur s)) (rng s) \<and>
         m_cycles s' = m_cycles s + 1"
proof -
  from assms obtain t where il: "inner_loop f df eps (start_cycle s) = Some (Inr t)"
    and fc: "finish_cycle f eps t = Inr s'"
    by (auto simp: outer_body_def split: option.splits sum.splits)
  have r: "inner_reach f df eps (start_cycle s) t"
    using inner_loop_reach [OF il] by simp
  have sh: "shaped (length (x_cur s)) t" and "rng t = rng (start_cycle s)"
    and "m_cycles t = m_cycles (start_cycle s)"
    using shaped_reach [OF r shaped_start] by simp_all
  then show ?thesis
    using finish_cycle_shape [OF fc sh] by (simp add: start_cycle_def)
qed

lemma cycle_reach_samples:
  "cycle_reach f df eps s0 s \<Longrightarrow>
     length (x_cur s) = length (x_cur s0) \<and>
     rng s = sdrop ((m_cycles s - m_cycles s0) * length (x_cur s0)) (rng s0) \<and>
     m_cycles s0 \<le> m_cycles s"
proof (induction rule: cycle_reach.induct)
  case cycle_start
  show ?case by simp
next
  case (cycle_next s s')
  from outer_body_shape [OF cycle_next.hyps(3)] cycle_next.IH
  show ?case by (simp add: Suc_diff_le add.commute)
qed

lemma MultiDimensionalBisection_samples:
  assumes "MultiDimensionalBisection f df x r eps g = Some (Inr l)"
  shows "length (x_cur l) = length x \<and> rng l = sdrop (m_cycles l * length x) g"
proof -
  have "cycle_reach f df eps (init_locals x r g) l"
    using assms outer_loop_reach by (simp add: MultiDimensionalBisection_def)
  from cycle_reach_samples [OF this] show ?thesis
    by (simp add: init_locals_def)
qed


text \<open>The generator is read only at the end of a cycle (line 147). A call, a restart and the
  restart loop behave in the same way on every generator that delivers the same samples up to
  the point they have reached.\<close>

lemma inner_guard_rng: "inner_guard eps (t\<lparr>rng := g\<rparr>) = inner_guard eps t"
  by (simp add: inner_guard_def)

lemma inner_step_rng:
  "inner_step f df t = Inr t' \<Longrightarrow> inner_step f df (t\<lparr>rng := g\<rparr>) = Inr (t'\<lparr>rng := g\<rparr>)"
  unfolding inner_step_def Let_def
  by (auto split: if_splits sum.splits)

lemma inner_reach_rng:
  "inner_reach f df eps s0 t \<Longrightarrow> inner_reach f df eps (s0\<lparr>rng := g\<rparr>) (t\<lparr>rng := g\<rparr>)"
proof (induction rule: inner_reach.induct)
  case inner_start
  show ?case by (rule inner_reach.inner_start)
next
  case (inner_next s s')
  show ?case
    using inner_next.IH inner_next.hyps(2,3)
    by (auto intro: inner_reach.inner_next simp: inner_guard_rng inner_step_rng)
qed

lemma inner_loop_rng:
  assumes "inner_loop f df eps s0 = Some (Inr t)"
  shows "inner_loop f df eps (s0\<lparr>rng := g\<rparr>) = Some (Inr (t\<lparr>rng := g\<rparr>))"
proof -
  from inner_loop_reach [OF assms] have r: "inner_reach f df eps s0 t"
    and n: "\<not> inner_guard eps t" by simp_all
  have "inner_loop f df eps (s0\<lparr>rng := g\<rparr>) = inner_loop f df eps (t\<lparr>rng := g\<rparr>)"
    using inner_reach_rng [OF r] by (rule inner_reach_loop)
  also have "\<dots> = Some (Inr (t\<lparr>rng := g\<rparr>))"
    using n by (subst inner_loop.simps) (simp add: inner_guard_rng)
  finally show ?thesis .
qed

lemma start_cycle_rng: "start_cycle (s\<lparr>rng := g\<rparr>) = (start_cycle s)\<lparr>rng := g\<rparr>"
  by (simp add: start_cycle_def)

lemma finish_cycle_Inr:
  assumes "finish_cycle f eps t = Inr s'"
  obtains a xb fx where
    "x_best t = Some xb" "fx_cur t = Some fx"
    "a = argmin_from 0 (Fin (f (x_low t))) 1 [Fin (f (x_high t)), fx_best t]"
    "s' = t\<lparr> x_cur := [x_low t, x_high t, xb] ! a,
             fx_cur := Some ([fx, fy_old t, fx_best t, Fin (f (x_low t)), Fin (f (x_high t))] ! a),
             trust_range := d_fin ([x_low t, x_high t, xb] ! a)
               (vadd (x_prev t) (smul (1 / 10 * eps)
                  (stake (length ([x_low t, x_high t, xb] ! a)) (rng t)))),
             rng := sdrop (length ([x_low t, x_high t, xb] ! a)) (rng t),
             trace := trace t @ [EvalF (x_low t), EvalF (x_high t)] \<rparr>"
  using assms unfolding finish_cycle_def Let_def np_argmin_def draw_def
  by (auto split: option.splits simp del: argmin_from.simps)

lemma finish_cycle_rng:
  assumes fc: "finish_cycle f eps t = Inr s'" and sh: "shaped k t"
    and st: "stake k g = stake k (rng t)"
  shows "finish_cycle f eps (t\<lparr>rng := g\<rparr>) = Inr (s'\<lparr>rng := sdrop k g\<rparr>)"
proof -
  from finish_cycle_shape [OF fc sh] have len: "length (x_cur s') = k" by simp
  from fc obtain a xb fx where xb: "x_best t = Some xb" and fx: "fx_cur t = Some fx"
    and a: "a = argmin_from 0 (Fin (f (x_low t))) 1 [Fin (f (x_high t)), fx_best t]"
    and s': "s' = t\<lparr> x_cur := [x_low t, x_high t, xb] ! a,
             fx_cur := Some ([fx, fy_old t, fx_best t, Fin (f (x_low t)), Fin (f (x_high t))] ! a),
             trust_range := d_fin ([x_low t, x_high t, xb] ! a)
               (vadd (x_prev t) (smul (1 / 10 * eps)
                  (stake (length ([x_low t, x_high t, xb] ! a)) (rng t)))),
             rng := sdrop (length ([x_low t, x_high t, xb] ! a)) (rng t),
             trace := trace t @ [EvalF (x_low t), EvalF (x_high t)] \<rparr>"
    by (rule finish_cycle_Inr)
  have la: "length ([x_low t, x_high t, xb] ! a) = k"
    using len by (simp add: s')
  have "finish_cycle f eps (t\<lparr>rng := g\<rparr>) =
      Inr (t\<lparr> x_cur := [x_low t, x_high t, xb] ! a,
             fx_cur := Some ([fx, fy_old t, fx_best t, Fin (f (x_low t)), Fin (f (x_high t))] ! a),
             trust_range := d_fin ([x_low t, x_high t, xb] ! a)
               (vadd (x_prev t) (smul (1 / 10 * eps) (stake k g))),
             rng := sdrop k g,
             trace := trace t @ [EvalF (x_low t), EvalF (x_high t)] \<rparr>)"
  proof -
    have a': "argmin_from 0 (Fin (f (x_low t))) (Suc 0) [Fin (f (x_high t)), fx_best t] = a"
      by (simp only: a One_nat_def)
    show ?thesis
      unfolding finish_cycle_def Let_def np_argmin_def draw_def
      by (simp add: xb fx a' la del: argmin_from.simps)
  qed
  also have "\<dots> = Inr (s'\<lparr>rng := sdrop k g\<rparr>)"
    by (simp add: s' la st)
  finally show ?thesis .
qed

lemma outer_body_rng:
  assumes ob: "outer_body f df eps s = Some (Inr s')"
    and st: "stake (length (x_cur s)) g = stake (length (x_cur s)) (rng s)"
  shows "outer_body f df eps (s\<lparr>rng := g\<rparr>) = Some (Inr (s'\<lparr>rng := sdrop (length (x_cur s)) g\<rparr>))"
proof -
  from ob obtain t where il: "inner_loop f df eps (start_cycle s) = Some (Inr t)"
    and fc: "finish_cycle f eps t = Inr s'"
    by (auto simp: outer_body_def split: option.splits sum.splits)
  have r: "inner_reach f df eps (start_cycle s) t"
    using inner_loop_reach [OF il] by simp
  have sh: "shaped (length (x_cur s)) t" and rt: "rng t = rng s"
    using shaped_reach [OF r shaped_start] by (simp_all add: start_cycle_def)
  have "inner_loop f df eps (start_cycle (s\<lparr>rng := g\<rparr>)) = Some (Inr (t\<lparr>rng := g\<rparr>))"
    using inner_loop_rng [OF il] by (simp add: start_cycle_rng)
  moreover have "finish_cycle f eps (t\<lparr>rng := g\<rparr>) = Inr (s'\<lparr>rng := sdrop (length (x_cur s)) g\<rparr>)"
    using fc sh st by (intro finish_cycle_rng) (simp_all add: rt)
  ultimately show ?thesis
    by (simp add: outer_body_def)
qed

lemma stake_add_eq:
  assumes "stake (a + b) g = stake (a + b) g'"
  shows "stake a g = stake a g' \<and> stake b (sdrop a g) = stake b (sdrop a g')"
proof -
  have "stake a g @ stake b (sdrop a g) = stake (a + b) g"
    by (rule stake_add)
  moreover have "stake a g' @ stake b (sdrop a g') = stake (a + b) g'"
    by (rule stake_add)
  ultimately have "stake a g @ stake b (sdrop a g) = stake a g' @ stake b (sdrop a g')"
    using assms by simp
  then show ?thesis by (simp del: stake_add)
qed

lemma cycle_reach_rng:
  assumes "cycle_reach f df eps s0 s"
  shows "\<forall>g. stake ((m_cycles s - m_cycles s0) * length (x_cur s0)) g
              = stake ((m_cycles s - m_cycles s0) * length (x_cur s0)) (rng s0) \<longrightarrow>
           cycle_reach f df eps (s0\<lparr>rng := g\<rparr>)
             (s\<lparr>rng := sdrop ((m_cycles s - m_cycles s0) * length (x_cur s0)) g\<rparr>)"
  using assms
proof (induction rule: cycle_reach.induct)
  case cycle_start
  show ?case by (simp add: cycle_reach.cycle_start)
next
  case (cycle_next s s')
  let ?n = "length (x_cur s0)"
  let ?K = "(m_cycles s - m_cycles s0) * ?n"
  from cycle_reach_samples [OF cycle_next.hyps(1)]
  have len: "length (x_cur s) = ?n" and rs: "rng s = sdrop ?K (rng s0)"
    and le: "m_cycles s0 \<le> m_cycles s" by simp_all
  from outer_body_shape [OF cycle_next.hyps(3)]
  have m': "m_cycles s' = m_cycles s + 1" by simp
  have K': "(m_cycles s' - m_cycles s0) * ?n = ?K + ?n"
    using le by (simp add: m' Suc_diff_le)
  show ?case
  proof (intro allI impI)
    fix g
    assume "stake ((m_cycles s' - m_cycles s0) * ?n) g
              = stake ((m_cycles s' - m_cycles s0) * ?n) (rng s0)"
    then have e: "stake (?K + ?n) g = stake (?K + ?n) (rng s0)"
      by (simp only: K')
    from stake_add_eq [OF e]
    have e1: "stake ?K g = stake ?K (rng s0)"
      and e2: "stake ?n (sdrop ?K g) = stake ?n (sdrop ?K (rng s0))" by simp_all
    from cycle_next.IH e1
    have r: "cycle_reach f df eps (s0\<lparr>rng := g\<rparr>) (s\<lparr>rng := sdrop ?K g\<rparr>)" by blast
    have ob: "outer_body f df eps (s\<lparr>rng := sdrop ?K g\<rparr>)
        = Some (Inr (s'\<lparr>rng := sdrop ?n (sdrop ?K g)\<rparr>))"
      using outer_body_rng [OF cycle_next.hyps(3), of "sdrop ?K g"] e2 by (simp add: len rs)
    have "cycle_reach f df eps (s0\<lparr>rng := g\<rparr>) (s'\<lparr>rng := sdrop ?n (sdrop ?K g)\<rparr>)"
      using r _ ob by (rule cycle_reach.cycle_next) (simp add: cycle_next.hyps(2))
    then show "cycle_reach f df eps (s0\<lparr>rng := g\<rparr>)
        (s'\<lparr>rng := sdrop ((m_cycles s' - m_cycles s0) * ?n) g\<rparr>)"
      by (simp add: K')
  qed
qed

lemma MultiDimensionalBisection_rng:
  assumes m: "MultiDimensionalBisection f df x r eps g = Some (Inr l)"
    and st: "stake (m_cycles l * length x) g' = stake (m_cycles l * length x) g"
  shows "MultiDimensionalBisection f df x r eps g'
           = Some (Inr (l\<lparr>rng := sdrop (m_cycles l * length x) g'\<rparr>))"
proof -
  from m have ol: "outer_loop f df eps (init_locals x r g) = Some (Inr l)"
    by (simp add: MultiDimensionalBisection_def)
  from outer_loop_reach [OF ol] have cr: "cycle_reach f df eps (init_locals x r g) l"
    and ng: "outer_guard eps (x_cur l) (x_prev l) = Inr False" by simp_all
  have i: "(init_locals x r g)\<lparr>rng := g'\<rparr> = init_locals x r g'"
    by (simp add: init_locals_def)
  from cycle_reach_rng [OF cr] st
  have "cycle_reach f df eps (init_locals x r g') (l\<lparr>rng := sdrop (m_cycles l * length x) g'\<rparr>)"
    by (simp add: init_locals_def)
  then have "outer_loop f df eps (init_locals x r g')
      = outer_loop f df eps (l\<lparr>rng := sdrop (m_cycles l * length x) g'\<rparr>)"
    by (rule cycle_reach_loop)
  also have "\<dots> = Some (Inr (l\<lparr>rng := sdrop (m_cycles l * length x) g'\<rparr>))"
    using ng by (subst outer_loop.simps) simp
  finally show ?thesis
    by (simp add: MultiDimensionalBisection_def)
qed

lemma restart_body_prefix:
  assumes "restart_body f df nv s = Some (Inr s')"
  shows "\<exists>l. MultiDimensionalBisection f df (stake nv (g_rng s)) 2 (1 / 10 ^ 10)
               (sdrop nv (g_rng s)) = Some (Inr l) \<and>
             g_rng s' = sdrop (nv + m_cycles l * nv) (g_rng s) \<and>
             (\<forall>g. stake (nv + m_cycles l * nv) g = stake (nv + m_cycles l * nv) (g_rng s) \<longrightarrow>
                  restart_body f df nv (s\<lparr>g_rng := g\<rparr>)
                    = Some (Inr (s'\<lparr>g_rng := sdrop (nv + m_cycles l * nv) g\<rparr>)))"
proof -
  from assms obtain l where
    m: "MultiDimensionalBisection f df (fst (draw nv (g_rng s))) 2 (1 / 10 ^ 10)
          (snd (draw nv (g_rng s))) = Some (Inr l)"
    and s': "s' = s\<lparr> g_i := g_i s + 1,
             g_x_best := (if f (x_cur l) < f (g_x_best s) then x_cur l else g_x_best s),
             g_rng := rng l \<rparr>"
    by (rule restart_body_Inr)
  from m have m': "MultiDimensionalBisection f df (stake nv (g_rng s)) 2 (1 / 10 ^ 10)
               (sdrop nv (g_rng s)) = Some (Inr l)"
    by (simp add: draw_def)
  from MultiDimensionalBisection_samples [OF m']
  have rl: "rng l = sdrop (nv + m_cycles l * nv) (g_rng s)"
    by simp
  have gs: "g_rng s' = sdrop (nv + m_cycles l * nv) (g_rng s)"
    using rl by (simp add: s')
  have per: "restart_body f df nv (s\<lparr>g_rng := g\<rparr>)
          = Some (Inr (s'\<lparr>g_rng := sdrop (nv + m_cycles l * nv) g\<rparr>))"
    if e: "stake (nv + m_cycles l * nv) g = stake (nv + m_cycles l * nv) (g_rng s)" for g
  proof -
    from stake_add_eq [OF e]
    have e1: "stake nv g = stake nv (g_rng s)"
      and e2: "stake (m_cycles l * nv) (sdrop nv g) = stake (m_cycles l * nv) (sdrop nv (g_rng s))"
      by simp_all
    have "MultiDimensionalBisection f df (stake nv (g_rng s)) 2 (1 / 10 ^ 10) (sdrop nv g)
        = Some (Inr (l\<lparr>rng := sdrop (m_cycles l * length (stake nv (g_rng s))) (sdrop nv g)\<rparr>))"
      using e2 by (intro MultiDimensionalBisection_rng [OF m']) simp
    then show ?thesis
      by (simp add: restart_body_def draw_def e1 s')
  qed
  show ?thesis
    apply (rule exI [of _ l])
    apply (intro conjI allI impI)
      apply (rule m')
     apply (rule gs)
    apply (erule per)
    done
qed

lemma restart_loop_prefix_aux:
  assumes "restart_loop f df nv s = Some y"
  shows "\<forall>r. y = Inr r \<longrightarrow>
     (\<exists>n. g_rng r = sdrop n (g_rng s) \<and>
        (\<forall>g. stake n g = stake n (g_rng s) \<longrightarrow>
           restart_loop f df nv (s\<lparr>g_rng := g\<rparr>) = Some (Inr (r\<lparr>g_rng := sdrop n g\<rparr>))))"
proof (rule restart_loop.raw_induct [where P = "\<lambda>f df nv s y. \<forall>r. y = Inr r \<longrightarrow>
     (\<exists>n. g_rng r = sdrop n (g_rng s) \<and>
        (\<forall>g. stake n g = stake n (g_rng s) \<longrightarrow>
           restart_loop f df nv (s\<lparr>g_rng := g\<rparr>) = Some (Inr (r\<lparr>g_rng := sdrop n g\<rparr>))))",
      OF _ assms])
  fix rl :: "(real list \<Rightarrow> real) \<Rightarrow> (real list \<Rightarrow> real list) \<Rightarrow> nat \<Rightarrow> globals
    \<Rightarrow> (error + globals) option"
  fix f df nv s fa
  assume ih: "\<And>f' df nv s y. rl f' df nv s = Some y \<Longrightarrow> \<forall>r. y = Inr r \<longrightarrow>
     (\<exists>n. g_rng r = sdrop n (g_rng s) \<and>
        (\<forall>g. stake n g = stake n (g_rng s) \<longrightarrow>
           restart_loop f' df nv (s\<lparr>g_rng := g\<rparr>) = Some (Inr (r\<lparr>g_rng := sdrop n g\<rparr>))))"
  assume eq: "(if f (g_x_best s) > 1 / 10 ^ 3
      then (case restart_body f df nv s of
              None \<Rightarrow> None
            | Some (Inl e) \<Rightarrow> Some (Inl e)
            | Some (Inr s') \<Rightarrow> rl f df nv s')
      else Some (Inr s)) = Some fa"
  show "\<forall>r. fa = Inr r \<longrightarrow>
     (\<exists>n. g_rng r = sdrop n (g_rng s) \<and>
        (\<forall>g. stake n g = stake n (g_rng s) \<longrightarrow>
           restart_loop f df nv (s\<lparr>g_rng := g\<rparr>) = Some (Inr (r\<lparr>g_rng := sdrop n g\<rparr>))))"
  proof (intro allI impI)
    fix r assume fa: "fa = Inr r"
    show "\<exists>n. g_rng r = sdrop n (g_rng s) \<and>
        (\<forall>g. stake n g = stake n (g_rng s) \<longrightarrow>
           restart_loop f df nv (s\<lparr>g_rng := g\<rparr>) = Some (Inr (r\<lparr>g_rng := sdrop n g\<rparr>)))"
    proof (cases "f (g_x_best s) > 1 / 10 ^ 3")
      case False
      with eq fa have rs: "r = s" by simp
      have "restart_loop f df nv (s\<lparr>g_rng := g\<rparr>) = Some (Inr (s\<lparr>g_rng := g\<rparr>))" for g
        using False by (subst restart_loop.simps) simp
      then show ?thesis
        by (intro exI [of _ 0]) (simp add: rs)
    next
      case True
      with eq fa obtain s1 where rb: "restart_body f df nv s = Some (Inr s1)"
        and rec: "rl f df nv s1 = Some (Inr r)"
        by (auto split: option.splits sum.splits)
      from restart_body_prefix [OF rb] obtain n1 where
        g1: "g_rng s1 = sdrop n1 (g_rng s)" and
        p1: "\<forall>g. stake n1 g = stake n1 (g_rng s) \<longrightarrow>
               restart_body f df nv (s\<lparr>g_rng := g\<rparr>) = Some (Inr (s1\<lparr>g_rng := sdrop n1 g\<rparr>))"
        by blast
      from ih [OF rec] obtain n2 where
        g2: "g_rng r = sdrop n2 (g_rng s1)" and
        p2: "\<forall>g. stake n2 g = stake n2 (g_rng s1) \<longrightarrow>
               restart_loop f df nv (s1\<lparr>g_rng := g\<rparr>) = Some (Inr (r\<lparr>g_rng := sdrop n2 g\<rparr>))"
        by blast
      have per: "restart_loop f df nv (s\<lparr>g_rng := g\<rparr>)
            = Some (Inr (r\<lparr>g_rng := sdrop (n1 + n2) g\<rparr>))"
        if e: "stake (n1 + n2) g = stake (n1 + n2) (g_rng s)" for g
      proof -
        from stake_add_eq [OF e] have e1: "stake n1 g = stake n1 (g_rng s)"
          and e2: "stake n2 (sdrop n1 g) = stake n2 (sdrop n1 (g_rng s))" by simp_all
        from p1 e1 have b: "restart_body f df nv (s\<lparr>g_rng := g\<rparr>)
            = Some (Inr (s1\<lparr>g_rng := sdrop n1 g\<rparr>))" by blast
        from e2 have "stake n2 (sdrop n1 g) = stake n2 (g_rng s1)" by (simp only: g1)
        with p2 have c: "restart_loop f df nv (s1\<lparr>g_rng := sdrop n1 g\<rparr>)
            = Some (Inr (r\<lparr>g_rng := sdrop n2 (sdrop n1 g)\<rparr>))" by blast
        show ?thesis
          using True b c by (subst restart_loop.simps) simp
      qed
      have "g_rng r = sdrop (n1 + n2) (g_rng s)"
        using g1 g2 by simp
      with per show ?thesis by blast
    qed
  qed
qed

lemma restart_loop_prefix:
  assumes "restart_loop f df nv s = Some (Inr r)"
  shows "\<exists>n. g_rng r = sdrop n (g_rng s) \<and>
        (\<forall>g. stake n g = stake n (g_rng s) \<longrightarrow>
           restart_loop f df nv (s\<lparr>g_rng := g\<rparr>) = Some (Inr (r\<lparr>g_rng := sdrop n g\<rparr>)))"
  using restart_loop_prefix_aux [OF assms] by blast

text \<open>A run of the module with the objective \<open>(x[0] - (1 + 2\<^sup>-\<^sup>3\<^sup>4 + 2\<^sup>-\<^sup>4\<^sup>0))\<^sup>2\<close>. The generator
  delivers \<open>0\<close> for line 94, \<open>-1\<close> for the first \<^verbatim>\<open>x_best\<close>, \<open>1\<close> for the start point of the first
  restart, then the jitter samples. The call takes two cycles: the first ends at
  \<open>[1 + 2\<^sup>-\<^sup>3\<^sup>3]\<close> after 35 steps, the second, whose trust range depends on the first jitter sample
  \<open>z\<close>, ends at \<open>[1 + z / 10\<^sup>1\<^sup>1]\<close>.\<close>

lemma call_sqm_2:
  "outcome (MultiDimensionalBisection sqm dsqm [1] 2 (1 / 10 ^ 10) (2 ## a ## t))
     = Some (Inr ([1 + 2 / 10 ^ 11], 2))"
  by (simp add: outcome_def MultiDimensionalBisection_def outer_loop.simps outer_body_def
      inner_loop.simps eval_defs sqm_def dsqm_def)

lemma call_sqm_3:
  "outcome (MultiDimensionalBisection sqm dsqm [1] 2 (1 / 10 ^ 10) (3 ## a ## t))
     = Some (Inr ([1 + 3 / 10 ^ 11], 2))"
  by (simp add: outcome_def MultiDimensionalBisection_def outer_loop.simps outer_body_def
      inner_loop.simps eval_defs sqm_def dsqm_def)

lemma outcome_Inr:
  assumes "outcome r = Some (Inr (x, m))"
  obtains l where "r = Some (Inr l)" "x_cur l = x" "m_cycles l = m"
proof -
  from assms obtain z where r: "r = Some z" and z: "map_sum id (\<lambda>l. (x_cur l, m_cycles l)) z = Inr (x, m)"
    by (auto simp: outcome_def)
  from z obtain l where "z = Inr l" "x_cur l = x" "m_cycles l = m"
    by (cases z) auto
  with r that show thesis by blast
qed

lemma sqm_start: "sqm [- 1] > 1 / 10 ^ 3"
  by (simp add: sqm_def)

lemma sqm_found_2: "sqm [1 + 2 / 10 ^ 11] < sqm [- 1]" "\<not> sqm [1 + 2 / 10 ^ 11] > 1 / 10 ^ 3"
  by (simp_all add: sqm_def)

lemma sqm_found_3: "sqm [1 + 3 / 10 ^ 11] < sqm [- 1]" "\<not> sqm [1 + 3 / 10 ^ 11] > 1 / 10 ^ 3"
  by (simp_all add: sqm_def)

lemma restart_loop_once:
  assumes "f (g_x_best s) > 1 / 10 ^ 3"
    and "MultiDimensionalBisection f df (stake nv (g_rng s)) 2 (1 / 10 ^ 10) (sdrop nv (g_rng s))
           = Some (Inr l)"
    and "f (x_cur l) < f (g_x_best s)"
    and "\<not> f (x_cur l) > 1 / 10 ^ 3"
  shows "restart_loop f df nv s = Some (Inr (s\<lparr> g_i := g_i s + 1, g_x_best := x_cur l, g_rng := rng l \<rparr>))"
proof -
  have "restart_body f df nv s = Some (Inr (s\<lparr> g_i := g_i s + 1, g_x_best := x_cur l, g_rng := rng l \<rparr>))"
    using assms(2,3) by (simp add: restart_body_def draw_def)
  moreover have "restart_loop f df nv (s\<lparr> g_i := g_i s + 1, g_x_best := x_cur l, g_rng := rng l \<rparr>)
      = Some (Inr (s\<lparr> g_i := g_i s + 1, g_x_best := x_cur l, g_rng := rng l \<rparr>))"
    using assms(4) by (subst restart_loop.simps) simp
  ultimately show ?thesis
    using assms(1) by (subst restart_loop.simps) simp
qed

lemma main_sqm_2:
  "main sqm dsqm 1 (0 ## - 1 ## 1 ## 2 ## a ## t)
     = Some (Inr \<lparr> g_x_best = [1 + 2 / 10 ^ 11], g_i = 1, g_rng = t \<rparr>)"
proof -
  from call_sqm_2 [of a t] obtain l where
    m: "MultiDimensionalBisection sqm dsqm [1] 2 (1 / 10 ^ 10) (2 ## a ## t) = Some (Inr l)"
    and x: "x_cur l = [1 + 2 / 10 ^ 11]" and c: "m_cycles l = 2"
    by (rule outcome_Inr)
  from MultiDimensionalBisection_samples [OF m] have g: "rng l = t"
    by (simp add: c numeral_2_eq_2)
  let ?s = "\<lparr> g_x_best = [- 1], g_i = 0, g_rng = 1 ## 2 ## a ## t \<rparr>"
  have "main sqm dsqm 1 (0 ## - 1 ## 1 ## 2 ## a ## t) = restart_loop sqm dsqm 1 ?s"
    by (simp add: main_def draw_def)
  also have "\<dots> = Some (Inr (?s\<lparr> g_i := g_i ?s + 1, g_x_best := x_cur l, g_rng := rng l \<rparr>))"
  proof (rule restart_loop_once)
    show "sqm (g_x_best ?s) > 1 / 10 ^ 3" using sqm_start by simp
    show "MultiDimensionalBisection sqm dsqm (stake 1 (g_rng ?s)) 2 (1 / 10 ^ 10)
        (sdrop 1 (g_rng ?s)) = Some (Inr l)" using m by simp
    show "sqm (x_cur l) < sqm (g_x_best ?s)" using sqm_found_2(1) by (simp add: x)
    show "\<not> sqm (x_cur l) > 1 / 10 ^ 3" using sqm_found_2(2) by (simp add: x)
  qed
  also have "\<dots> = Some (Inr \<lparr> g_x_best = [1 + 2 / 10 ^ 11], g_i = 1, g_rng = t \<rparr>)"
    by (simp add: x g)
  finally show ?thesis .
qed

lemma main_sqm_3:
  "main sqm dsqm 1 (0 ## - 1 ## 1 ## 3 ## a ## t)
     = Some (Inr \<lparr> g_x_best = [1 + 3 / 10 ^ 11], g_i = 1, g_rng = t \<rparr>)"
proof -
  from call_sqm_3 [of a t] obtain l where
    m: "MultiDimensionalBisection sqm dsqm [1] 2 (1 / 10 ^ 10) (3 ## a ## t) = Some (Inr l)"
    and x: "x_cur l = [1 + 3 / 10 ^ 11]" and c: "m_cycles l = 2"
    by (rule outcome_Inr)
  from MultiDimensionalBisection_samples [OF m] have g: "rng l = t"
    by (simp add: c numeral_2_eq_2)
  let ?s = "\<lparr> g_x_best = [- 1], g_i = 0, g_rng = 1 ## 3 ## a ## t \<rparr>"
  have "main sqm dsqm 1 (0 ## - 1 ## 1 ## 3 ## a ## t) = restart_loop sqm dsqm 1 ?s"
    by (simp add: main_def draw_def)
  also have "\<dots> = Some (Inr (?s\<lparr> g_i := g_i ?s + 1, g_x_best := x_cur l, g_rng := rng l \<rparr>))"
  proof (rule restart_loop_once)
    show "sqm (g_x_best ?s) > 1 / 10 ^ 3" using sqm_start by simp
    show "MultiDimensionalBisection sqm dsqm (stake 1 (g_rng ?s)) 2 (1 / 10 ^ 10)
        (sdrop 1 (g_rng ?s)) = Some (Inr l)" using m by simp
    show "sqm (x_cur l) < sqm (g_x_best ?s)" using sqm_found_3(1) by (simp add: x)
    show "\<not> sqm (x_cur l) > 1 / 10 ^ 3" using sqm_found_3(2) by (simp add: x)
  qed
  also have "\<dots> = Some (Inr \<lparr> g_x_best = [1 + 3 / 10 ^ 11], g_i = 1, g_rng = t \<rparr>)"
    by (simp add: x g)
  finally show ?thesis .
qed

text \<open>
  Claim C9 as stated fails: the program has no seed and no generator argument, its samples come
  from NumPy's global generator. Two runs of the module with the same configuration, whose
  generators differ in one sample only, the jitter of the first cycle of the first restart
  (line 147), each make one restart and end with different \<^verbatim>\<open>x_best\<close>.
\<close>

theorem same_configuration_different_best:
  "main sqm dsqm 1 (0 ## - 1 ## 1 ## 2 ## 0 ## sconst 0)
     = Some (Inr \<lparr> g_x_best = [1 + 2 / 10 ^ 11], g_i = 1, g_rng = sconst 0 \<rparr>) \<and>
   main sqm dsqm 1 (0 ## - 1 ## 1 ## 3 ## 0 ## sconst 0)
     = Some (Inr \<lparr> g_x_best = [1 + 3 / 10 ^ 11], g_i = 1, g_rng = sconst 0 \<rparr>) \<and>
   [1 + 2 / 10 ^ 11] \<noteq> [1 + 3 / 10 ^ 11 :: real]"
  by (simp only: main_sqm_2 main_sqm_3 simp_thms) simp

text \<open>
  Claim C9, amended. All randomness of a run is drawn from NumPy's global generator. A run that
  ends has consumed finitely many samples of the generator, \<open>n\<close> of them, and every run with the
  same configuration whose generator delivers the same first \<open>n\<close> samples ends with the same
  \<^verbatim>\<open>x_best\<close> after the same number of restarts, its generator \<open>n\<close> samples further.
\<close>

theorem run_determined_by_samples_drawn:
  assumes "main f df nv g = Some (Inr r)"
  shows "\<exists>n. g_rng r = sdrop n g \<and>
        (\<forall>g'. stake n g' = stake n g \<longrightarrow>
           main f df nv g' = Some (Inr (r\<lparr>g_rng := sdrop n g'\<rparr>)))"
proof -
  let ?s = "\<lambda>g. \<lparr> g_x_best = stake nv (sdrop nv g), g_i = 0, g_rng = sdrop (nv + nv) g \<rparr>"
  have m: "main f df nv g = restart_loop f df nv (?s g)" for g
    by (simp add: main_def draw_def)
  from assms have "restart_loop f df nv (?s g) = Some (Inr r)" by (simp only: m)
  from restart_loop_prefix [OF this] obtain n where
    a: "g_rng r = sdrop n (sdrop (nv + nv) g)" and
    b: "\<forall>h. stake n h = stake n (sdrop (nv + nv) g) \<longrightarrow>
           restart_loop f df nv ((?s g)\<lparr>g_rng := h\<rparr>) = Some (Inr (r\<lparr>g_rng := sdrop n h\<rparr>))"
    by auto
  have "main f df nv g' = Some (Inr (r\<lparr>g_rng := sdrop (nv + nv + n) g'\<rparr>))"
    if e: "stake (nv + nv + n) g' = stake (nv + nv + n) g" for g'
  proof -
    from stake_add_eq [OF e] have e1: "stake (nv + nv) g' = stake (nv + nv) g"
      and e2: "stake n (sdrop (nv + nv) g') = stake n (sdrop (nv + nv) g)" by simp_all
    from stake_add_eq [OF e1] have e3: "stake nv (sdrop nv g') = stake nv (sdrop nv g)"
      by simp
    have "(?s g)\<lparr>g_rng := sdrop (nv + nv) g'\<rparr> = ?s g'"
      by (simp add: e3)
    with b e2 have "restart_loop f df nv (?s g')
        = Some (Inr (r\<lparr>g_rng := sdrop n (sdrop (nv + nv) g')\<rparr>))"
      by metis
    then show ?thesis by (simp add: m)
  qed
  moreover have "g_rng r = sdrop (nv + nv + n) g" using a by simp
  ultimately show ?thesis by blast
qed

lemma position_in_stream:
  assumes "sdrop n (0 ## - 1 ## 1 ## 2 ## 5 ## 7 ## sconst 9) = 7 ## sconst (9 :: real)"
  shows "n = 5"
proof -
  let ?g = "0 ## - 1 ## 1 ## 2 ## 5 ## 7 ## sconst (9 :: real)"
  from arg_cong [OF assms, of shd] have h: "?g !! n = 7" by simp
  have "n < 6 \<or> 6 \<le> n" by arith
  then show ?thesis
  proof
    assume "n < 6"
    then consider "n = 0" | "n = 1" | "n = 2" | "n = 3" | "n = 4" | "n = 5" by arith
    then show ?thesis using h by cases (simp_all add: eval_nat_numeral)
  next
    assume "6 \<le> n"
    then obtain k where "n = 6 + k" by (auto simp: le_iff_add)
    with h show ?thesis by (simp add: eval_nat_numeral)
  qed
qed

theorem run_determined_by_samples_drawn_witness:
  "main sqm dsqm 1 (0 ## - 1 ## 1 ## 2 ## 5 ## 7 ## sconst 9)
     = Some (Inr \<lparr> g_x_best = [1 + 2 / 10 ^ 11], g_i = 1, g_rng = 7 ## sconst 9 \<rparr>) \<and>
   stake 5 (0 ## - 1 ## 1 ## 2 ## 5 ## sconst 4) = stake 5 (0 ## - 1 ## 1 ## 2 ## 5 ## 7 ## sconst (9 :: real)) \<and>
   main sqm dsqm 1 (0 ## - 1 ## 1 ## 2 ## 5 ## sconst 4)
     = Some (Inr \<lparr> g_x_best = [1 + 2 / 10 ^ 11], g_i = 1, g_rng = sconst 4 \<rparr>)"
proof -
  let ?g = "0 ## - 1 ## 1 ## 2 ## 5 ## 7 ## sconst (9 :: real)"
  let ?h = "0 ## - 1 ## 1 ## 2 ## 5 ## sconst (4 :: real)"
  let ?r = "\<lparr> g_x_best = [1 + 2 / 10 ^ 11 :: real], g_i = 1, g_rng = 7 ## sconst 9 \<rparr>"
  have run: "main sqm dsqm 1 ?g = Some (Inr ?r)"
    by (rule main_sqm_2)
  from run_determined_by_samples_drawn [OF run] obtain n where
    a: "g_rng ?r = sdrop n ?g" and
    b: "\<forall>g'. stake n g' = stake n ?g \<longrightarrow>
           main sqm dsqm 1 g' = Some (Inr (?r\<lparr>g_rng := sdrop n g'\<rparr>))"
    by blast
  from a have "sdrop n ?g = 7 ## sconst 9" by simp
  then have n: "n = 5" by (rule position_in_stream)
  have st: "stake 5 ?h = stake 5 ?g" by (simp add: eval_nat_numeral)
  have sd: "sdrop 5 ?h = sconst 4" by (simp add: eval_nat_numeral)
  from b n st have "main sqm dsqm 1 ?h = Some (Inr (?r\<lparr>g_rng := sdrop 5 ?h\<rparr>))"
    by blast
  then have "main sqm dsqm 1 ?h = Some (Inr \<lparr> g_x_best = [1 + 2 / 10 ^ 11], g_i = 1, g_rng = sconst 4 \<rparr>)"
    by (simp only: sd) simp
  with run st show ?thesis by blast
qed

subsection \<open>The number of outer cycles\<close>








subsection \<open>A failure inside a restart\<close>

lemma MultiDimensionalBisection_collapses:
  "MultiDimensionalBisection sqf dsqf [1] 2 (1 / 10 ^ 10) ((10 ^ 11 / 2 ^ 33) ## sconst 0)
     = Some (Inl AssertionError)"
  by (simp add: MultiDimensionalBisection_def outer_loop.simps outer_body_def inner_loop.simps
      eval_defs sqf_def dsqf_def)

lemma restart_loop_raise:
  assumes "f (g_x_best s) > 1 / 10 ^ 3"
    and "MultiDimensionalBisection f df (stake nv (g_rng s)) 2 (1 / 10 ^ 10) (sdrop nv (g_rng s))
           = Some (Inl e)"
  shows "restart_loop f df nv s = Some (Inl e)"
  using assms by (subst restart_loop.simps) (simp add: restart_body_def draw_def)

lemma f_globals_fields:
  "g_x_best f_globals = [- 1]"
  "stake 1 (g_rng f_globals) = [1]"
  "sdrop 1 (g_rng f_globals) = (10 ^ 11 / 2 ^ 33) ## sconst 0"
  by (simp_all add: f_globals_def)

lemma f_globals_objective: "sqf [- 1] > 1 / 10 ^ 3"
  by (simp add: sqf_def)

lemma restart_loop_f_globals: "restart_loop sqf dsqf 1 f_globals = Some (Inl AssertionError)"
  by (rule restart_loop_raise)
    (simp_all only: f_globals_fields f_globals_objective MultiDimensionalBisection_collapses)

text \<open>
  Claim C5 as stated fails: nothing catches a failure of the box check. In this run of the
  module the first restart starts at \<open>[1]\<close>; its first cycle ends at the point \<open>[1 + 2\<^sup>-\<^sup>3\<^sup>3]\<close>, the
  jitter makes the next trust range zero, the box of the second cycle is degenerate, the
  assertion of line 113 fails, and the AssertionError ends the whole run.
\<close>

theorem failure_ends_whole_run:
  "main sqf dsqf 1 (0 ## - 1 ## 1 ## (10 ^ 11 / 2 ^ 33) ## sconst 0) = Some (Inl AssertionError)"
proof -
  have d1: "draw 1 (0 ## - 1 ## 1 ## (10 ^ 11 / 2 ^ 33) ## sconst 0)
      = ([0], - 1 ## 1 ## (10 ^ 11 / 2 ^ 33) ## sconst (0::real))"
    by (simp add: draw_def)
  have d2: "draw 1 (- 1 ## 1 ## (10 ^ 11 / 2 ^ 33) ## sconst 0)
      = ([- 1], 1 ## (10 ^ 11 / 2 ^ 33) ## sconst (0::real))"
    by (simp add: draw_def)
  have "main sqf dsqf 1 (0 ## - 1 ## 1 ## (10 ^ 11 / 2 ^ 33) ## sconst 0)
      = restart_loop sqf dsqf 1 f_globals"
    by (simp only: main_def d1 d2 Let_def prod.case f_globals_def)
  then show ?thesis
    by (simp only: restart_loop_f_globals)
qed

text \<open>
  Claim C5, amended. An exception raised inside a call of \<^verbatim>\<open>MultiDimensionalBisection\<close> (such as
  the AssertionError of a degenerate box) is not caught at the restart boundary: the restart
  loop has no \<^verbatim>\<open>try\<close>, the exception propagates and ends the whole search.
\<close>

theorem exception_is_not_caught:
  assumes "f (g_x_best s) > 1 / 10 ^ 3"
    and "MultiDimensionalBisection f df (stake nv (g_rng s)) 2 (1 / 10 ^ 10) (sdrop nv (g_rng s))
           = Some (Inl e)"
  shows "restart_loop f df nv s = Some (Inl e)"
  using assms by (rule restart_loop_raise)

theorem exception_is_not_caught_witness:
  "sqf (g_x_best f_globals) > 1 / 10 ^ 3 \<and>
   MultiDimensionalBisection sqf dsqf (stake 1 (g_rng f_globals)) 2 (1 / 10 ^ 10)
     (sdrop 1 (g_rng f_globals)) = Some (Inl AssertionError) \<and>
   restart_loop sqf dsqf 1 f_globals = Some (Inl AssertionError)"
proof -
  have a: "sqf (g_x_best f_globals) > 1 / 10 ^ 3"
    by (simp only: f_globals_fields f_globals_objective)
  have b: "MultiDimensionalBisection sqf dsqf (stake 1 (g_rng f_globals)) 2 (1 / 10 ^ 10)
     (sdrop 1 (g_rng f_globals)) = Some (Inl AssertionError)"
    by (simp only: f_globals_fields MultiDimensionalBisection_collapses)
  from exception_is_not_caught [OF a b] a b show ?thesis by (simp only: simp_thms)
qed

subsection \<open>The distance on finite arrays\<close>

text \<open>On arrays without infinities \<open>d\<close> is \<open>d_fin\<close>, which line 147 uses.\<close>

lemma fsum_Fin: "fsum (map Fin xs) = Fin (sum_list xs)"
  by (induction xs) (simp_all add: fsum_def)

lemma d_Fin: "d (map Fin a) (map Fin b) = Fin (d_fin a b)"
proof -
  have m: "map fsq (map2 fsub (map Fin a) (map Fin b)) = map Fin (map (\<lambda>c. c * c) (vsub a b))"
    by (rule nth_equalityI) (simp_all add: fsub_def vsub_def)
  have n: "\<not> sum_list (map (\<lambda>c. c * c) (vsub a b)) < 0"
    using sum_squares_nonneg [of "vsub a b"] by simp
  have "d (map Fin a) (map Fin b) = fsqrt (Fin (sum_list (map (\<lambda>c. c * c) (vsub a b))))"
    unfolding d_def m fsum_Fin ..
  also have "\<dots> = Fin (d_fin a b)"
    using n by (simp add: d_fin_def)
  finally show ?thesis .
qed

subsection \<open>Every step narrows the box\<close>

lemma y_old_step:
  "inner_step f df t = Inr t' \<Longrightarrow> length (y_old t') = length (x_cur t)"
  by (erule inner_step_Inr) simp

lemma y_old_reach:
  "inner_reach f df eps s0 t \<Longrightarrow> shaped k s0 \<Longrightarrow> length (y_old s0) = k \<Longrightarrow>
     length (y_old t) = k"
proof (induction rule: inner_reach.induct)
  case inner_start
  then show ?case by simp
next
  case (inner_next s s')
  have "shaped k s"
    using shaped_reach [OF inner_next.hyps(1) inner_next.prems(1)] by simp
  then show ?case
    using y_old_step [OF inner_next.hyps(3)] by (simp add: shaped_def)
qed

lemma narrow_completes:
  assumes "length x \<le> length dfx" "length x \<le> length y" "length x \<le> length hi"
    "length x \<le> length lo"
  shows "\<exists>b. narrow fx fy x dfx y hi lo = Inr b"
  using assms by (simp add: narrow_def narrow_grad_def narrow_pos_def)

lemma inner_step_completes:
  assumes "box_ok (x_high s) (x_low s)"
    and "length (x_cur s) \<le> length (df (x_cur s))" "length (x_cur s) \<le> length (y_old s)"
    and "length (x_cur s) \<le> length (x_high s)" "length (x_cur s) \<le> length (x_low s)"
  shows "\<exists>s'. inner_step f df s = Inr s'"
proof -
  from narrow_completes [OF assms(2-5)]
  obtain b where "narrow (f (x_cur s)) (fy_old s) (x_cur s) (df (x_cur s)) (y_old s)
      (x_high s) (x_low s) = Inr b"
    by blast
  then show ?thesis
    using assms(1) by (cases b) (simp add: inner_step_def Let_def)
qed

text \<open>
  Claim C1. In every inner-loop iteration the box is narrowed as specified. \<open>s\<close> is any state in
  which a cycle enters an inner-loop step with a box that passes the assertion of line 113 (and
  \<^verbatim>\<open>df\<close> returns an array as long as \<^verbatim>\<open>x\<close>). The step completes, and in each dimension \<open>i\<close>: if the
  new value \<open>fx\<close> is at most the previous value \<open>fy\<close>, a positive gradient sets
  \<open>high[i] = x[i]\<close> and otherwise \<open>low[i] = x[i]\<close>; if \<open>fx > fy\<close>, then \<open>x[i] > y[i]\<close> sets
  \<open>high[i] = x[i]\<close> and otherwise \<open>low[i] = x[i]\<close>. The other bound of the dimension keeps its
  value.
\<close>

theorem inner_step_narrows_box:
  assumes "inner_reach f df eps (start_cycle s0) s"
    and "box_ok (x_high s) (x_low s)"
    and "length (x_cur s) \<le> length (df (x_cur s))"
    and "i < length (x_cur s)"
  shows "\<exists>s'. inner_step f df s = Inr s' \<and>
         (fle (Fin (f (x_cur s))) (fy_old s) \<longrightarrow>
           (if df (x_cur s) ! i > 0
            then x_high s' ! i = x_cur s ! i \<and> x_low s' ! i = x_low s ! i
            else x_low s' ! i = x_cur s ! i \<and> x_high s' ! i = x_high s ! i)) \<and>
         (fgt (Fin (f (x_cur s))) (fy_old s) \<longrightarrow>
           (if fgt (Fin (x_cur s ! i)) (y_old s ! i)
            then x_high s' ! i = x_cur s ! i \<and> x_low s' ! i = x_low s ! i
            else x_low s' ! i = x_cur s ! i \<and> x_high s' ! i = x_high s ! i))"
proof -
  let ?k = "length (x_cur s0)"
  have sh: "shaped ?k s"
    using shaped_reach [OF assms(1) shaped_start] by simp
  have y: "length (y_old s) = ?k"
    using y_old_reach [OF assms(1) shaped_start] by (simp add: start_cycle_def)
  from sh y have "\<exists>s'. inner_step f df s = Inr s'"
    using assms(2,3) by (intro inner_step_completes) (simp_all add: shaped_def)
  then obtain s' where st: "inner_step f df s = Inr s'" ..
  from narrowing_rule [OF st assms(4)] st show ?thesis by blast
qed

lemma inner_reach_p_mid:
  "inner_reach quad dquad (1 / 2) (start_cycle (init_locals [1] 6 (sconst 0))) p_mid"
proof (rule inner_next [OF inner_start])
  show "inner_guard (1 / 2) (start_cycle (init_locals [1] 6 (sconst 0)))"
    by (simp add: eval_defs)
  show "inner_step quad dquad (start_cycle (init_locals [1] 6 (sconst 0))) = Inr p_mid"
    by (simp add: eval_defs p_mid_def)
qed

lemma inner_step_p_mid: "inner_step quad dquad p_mid = Inr p_next"
  by (simp add: eval_defs p_mid_def p_next_def)

lemma p_mid_fields:
  "x_cur p_mid = [- 2]" "x_high p_mid = [1]" "x_low p_mid = [- 5]" "y_old p_mid = [Fin 1]"
  "fy_old p_mid = Fin 1"
  by (simp_all add: p_mid_def)

theorem inner_step_narrows_box_witness:
  "inner_reach quad dquad (1 / 2) (start_cycle (init_locals [1] 6 (sconst 0))) p_mid \<and>
   box_ok (x_high p_mid) (x_low p_mid) \<and>
   length (x_cur p_mid) \<le> length (dquad (x_cur p_mid)) \<and>
   (0::nat) < length (x_cur p_mid) \<and>
   inner_step quad dquad p_mid = Inr p_next \<and>
   fgt (Fin (quad (x_cur p_mid))) (fy_old p_mid) \<and>
   \<not> fgt (Fin (x_cur p_mid ! 0)) (y_old p_mid ! 0) \<and>
   x_low p_next ! 0 = x_cur p_mid ! 0 \<and> x_high p_next ! 0 = x_high p_mid ! 0"
proof -
  have b: "box_ok (x_high p_mid) (x_low p_mid)"
    by (simp add: p_mid_fields box_ok_def vsub_def)
  have l: "length (x_cur p_mid) \<le> length (dquad (x_cur p_mid))"
    by (simp add: p_mid_fields dquad_def)
  have i: "(0::nat) < length (x_cur p_mid)"
    by (simp add: p_mid_fields)
  have g: "fgt (Fin (quad (x_cur p_mid))) (fy_old p_mid)"
    by (simp add: p_mid_fields quad_def fgt_def)
  have n: "\<not> fgt (Fin (x_cur p_mid ! 0)) (y_old p_mid ! 0)"
    by (simp add: p_mid_fields fgt_def)
  from inner_step_narrows_box [OF inner_reach_p_mid b l i] inner_step_p_mid g n
  have "x_low p_next ! 0 = x_cur p_mid ! 0 \<and> x_high p_next ! 0 = x_high p_mid ! 0"
    by auto
  with inner_reach_p_mid b l i inner_step_p_mid g n show ?thesis by simp
qed

end
